theory Spec2Isabelle
  imports Main "HOL-Library.Word"
begin

section \<open>Machine types and parameters of CmpStreamPrefetcher\<close>

text \<open>
  Modelled from the spec: Types.h is not among the sources. \<open>uint32\<close> and \<open>int32\<close> are
  32-bit words (read with \<open>unat\<close> and \<open>sint\<close>). Addresses (\<open>addr_t\<close>) are unsigned
  64-bit words: the spec warns about underflow of the window arithmetic, and the matcher
  takes \<open>llabs\<close> (a \<open>long long\<close>) of an address difference.
\<close>

type_synonym uint32 = "32 word"
type_synonym int32 = "32 word"
type_synonym addr_t = "64 word"
type_synonym cycles_t = "64 word"

text \<open>The parameters of the component (the members set by AddParameter).\<close>

record params =
  blockSize :: uint32
  prefetchOnWrite :: bool
  tableSize :: uint32
  numTrains :: uint32
  trainDistance :: uint32
  distance :: uint32
  degree :: uint32

text \<open>The constructor's defaults.\<close>

definition default_params :: params where
  "default_params =
     \<lparr>blockSize = 64, prefetchOnWrite = False, tableSize = 16, numTrains = 2,
      trainDistance = 16, distance = 24, degree = 4\<rparr>"

text \<open>
  The frequently used values of StartSimulation. Both products are computed on
  \<open>uint32\<close> (they wrap at 32 bits) and then widened to \<open>addr_t\<close>.
\<close>

definition trainAddrDistance :: "params \<Rightarrow> addr_t" where
  "trainAddrDistance P = ucast (trainDistance P * blockSize P)"

definition prefetchAddrDistance :: "params \<Rightarrow> addr_t" where
  "prefetchAddrDistance P = ucast (distance P * blockSize P)"

section \<open>Requests\<close>

text \<open>
  Modelled from the spec: MemoryRequest.h is not among the sources. The request kinds
  are the ones ProcessRequest names, and the read that the spec calls an access; the
  fields are the ones ProcessRequest reads or passes to the constructor of a prefetch.
\<close>

datatype RequestType = READ | WRITE | WRITEBACK | PREFETCH | READ_FOR_WRITE

datatype Initiator = CPU | COMPONENT

record MemoryRequest =
  iniType :: Initiator
  cpuID :: uint32
  reqType :: RequestType
  cmpID :: uint32
  virtualAddress :: addr_t
  physicalAddress :: addr_t
  reqSize :: uint32
  currentCycle :: cycles_t
  icount :: "64 word"
  ip :: addr_t

text \<open>
  Modelled from the spec: the macros VBLOCK_ADDRESS and PBLOCK_ADDRESS are not among the
  sources. The spec has the access address normalised to its containing block
  (block-aligned down). A block size of zero is outside what the two definitions
  model: HOL's division yields 0 there.
\<close>

definition VBLOCK_ADDRESS :: "MemoryRequest \<Rightarrow> uint32 \<Rightarrow> addr_t" where
  "VBLOCK_ADDRESS request bs = (virtualAddress request div ucast bs) * ucast bs"

definition PBLOCK_ADDRESS :: "MemoryRequest \<Rightarrow> uint32 \<Rightarrow> addr_t" where
  "PBLOCK_ADDRESS request bs = (physicalAddress request div ucast bs) * ucast bs"

section \<open>Stream entries\<close>

datatype StreamDirection = FORWARD | BACKWARD | NONE

text \<open>
  The enumerators are 1, -1 and 0. In \<open>entry.direction * _blockSize\<close> the enumerator
  is converted to \<open>unsigned int\<close>, the type of \<open>_blockSize\<close>, so BACKWARD is
  \<open>2 ^ 32 - 1\<close> there.
\<close>

definition direction_value :: "StreamDirection \<Rightarrow> uint32" where
  "direction_value d = (case d of FORWARD \<Rightarrow> 1 | BACKWARD \<Rightarrow> - 1 | NONE \<Rightarrow> 0)"

record StreamEntry =
  allocMissAddress :: addr_t
  ip :: addr_t
  sp :: addr_t
  ep :: addr_t
  psp :: addr_t
  pep :: addr_t
  trainHits :: int32
  trained :: bool
  direction :: StreamDirection

section \<open>The stream table\<close>

text \<open>
  Modelled from the spec: GenericTable.h is not among the sources. The table is a
  capacity-bounded associative store: a fixed list of slots, each a row with a valid
  flag, a key and a value, and a replacement state that belongs to the configured
  eviction policy. The policy is a parameter: \<open>touch\<close> updates the replacement state when
  a key is read or inserted, \<open>victim\<close> picks the slot to replace when no slot is free.
\<close>

record table_entry =
  valid :: bool
  key :: uint32
  val :: StreamEntry

record 'p policy =
  init :: 'p
  touch :: "'p \<Rightarrow> uint32 \<Rightarrow> 'p"
  victim :: "'p \<Rightarrow> table_entry list \<Rightarrow> nat"

record 'p generic_table =
  rows :: "table_entry list"
  repl :: 'p

definition empty_entry :: StreamEntry where
  "empty_entry =
     \<lparr>allocMissAddress = 0, ip = 0, sp = 0, ep = 0, psp = 0, pep = 0,
      trainHits = 0, trained = False, direction = NONE\<rparr>"

definition SetTableParameters :: "'p policy \<Rightarrow> uint32 \<Rightarrow> 'p generic_table" where
  "SetTableParameters pol n =
     \<lparr>rows = replicate (unat n) \<lparr>valid = False, key = 0, val = empty_entry\<rparr>,
      repl = init pol\<rparr>"

text \<open>\<open>read(key)\<close>: the dummy read that only updates the replacement state.\<close>

definition read_key :: "'p policy \<Rightarrow> uint32 \<Rightarrow> 'p generic_table \<Rightarrow> 'p generic_table" where
  "read_key pol k t = t\<lparr>repl := touch pol (repl t) k\<rparr>"

text \<open>\<open>operator[]\<close>: the value stored under a key, found in the valid row of that key.\<close>

fun lookup_rows :: "uint32 \<Rightarrow> table_entry list \<Rightarrow> StreamEntry option" where
  "lookup_rows k [] = None"
| "lookup_rows k (r # rs) = (if valid r \<and> key r = k then Some (val r) else lookup_rows k rs)"

text \<open>Writing through the reference that \<open>operator[]\<close> returned.\<close>

fun store_rows :: "uint32 \<Rightarrow> StreamEntry \<Rightarrow> table_entry list \<Rightarrow> table_entry list" where
  "store_rows k e [] = []"
| "store_rows k e (r # rs) =
     (if valid r \<and> key r = k then r\<lparr>val := e\<rparr> # rs else r # store_rows k e rs)"

text \<open>\<open>invalidate(key)\<close>: the valid row of that key becomes invalid.\<close>

fun invalidate_rows :: "uint32 \<Rightarrow> table_entry list \<Rightarrow> table_entry list" where
  "invalidate_rows k [] = []"
| "invalidate_rows k (r # rs) =
     (if valid r \<and> key r = k then r\<lparr>valid := False\<rparr> # rs else r # invalidate_rows k rs)"

text \<open>
  \<open>insert(key, value)\<close>: the new row goes into the first free slot; when the table is
  at capacity the policy names the slot whose record is replaced.
\<close>

fun free_slot :: "table_entry list \<Rightarrow> nat option" where
  "free_slot [] = None"
| "free_slot (r # rs) =
     (if \<not> valid r then Some 0 else map_option Suc (free_slot rs))"

definition insert_slot :: "'p policy \<Rightarrow> 'p generic_table \<Rightarrow> nat" where
  "insert_slot pol t =
     (case free_slot (rows t) of Some i \<Rightarrow> i | None \<Rightarrow> victim pol (repl t) (rows t))"

definition insert_key ::
  "'p policy \<Rightarrow> uint32 \<Rightarrow> StreamEntry \<Rightarrow> 'p generic_table \<Rightarrow> 'p generic_table" where
  "insert_key pol k e t =
     \<lparr>rows = (rows t)[insert_slot pol t := \<lparr>valid = True, key = k, val = e\<rparr>],
      repl = touch pol (repl t) k\<rparr>"

section \<open>State of the component\<close>

record 'p state =
  streamTable :: "'p generic_table"
  runningIndex :: uint32
  num_prefetches :: "64 word"

definition StartSimulation :: "params \<Rightarrow> 'p policy \<Rightarrow> 'p state" where
  "StartSimulation P pol =
     \<lparr>streamTable = SetTableParameters pol (tableSize P), runningIndex = 0,
      num_prefetches = 0\<rparr>"

section \<open>ProcessRequest: the stream matcher\<close>

text \<open>
  \<open>llabs\<close> of the address difference, which is converted to \<open>long long\<close>; the
  result is compared with \<open>_trainAddrDistance\<close> as an unsigned 64-bit value.
\<close>

definition llabs :: "64 word \<Rightarrow> 64 word" where
  "llabs x = (if x <s 0 then - x else x)"

definition entry_hit :: "params \<Rightarrow> StreamEntry \<Rightarrow> addr_t \<Rightarrow> bool" where
  "entry_hit P entry vcla =
     (if \<not> trained entry
      then llabs (allocMissAddress entry - vcla) < trainAddrDistance P
      else sp entry \<le> vcla \<and> ep entry \<ge> vcla)"

text \<open>
  The scan over the slots in slot order; the table has exactly \<open>_tableSize\<close> slots, so
  the loop visits every row. The first valid row that matches wins.
\<close>

fun find_hit :: "params \<Rightarrow> addr_t \<Rightarrow> table_entry list \<Rightarrow> uint32 option" where
  "find_hit P vcla [] = None"
| "find_hit P vcla (row # rs) =
     (if \<not> valid row then find_hit P vcla rs
      else if entry_hit P (val row) vcla then Some (key row)
      else find_hit P vcla rs)"

section \<open>ProcessRequest: training\<close>

text \<open>The body of \<open>if (!entry.trained)\<close>, lines 250 to 298.\<close>

definition train :: "params \<Rightarrow> addr_t \<Rightarrow> addr_t \<Rightarrow> StreamEntry \<Rightarrow> StreamEntry" where
  "train P vcla pcla entry =
     (let e1 =
        (if allocMissAddress entry < vcla then
           (case direction entry of
              FORWARD \<Rightarrow>
                (let e = entry\<lparr>trainHits := trainHits entry + 1\<rparr>
                 in if vcla > ep e then e\<lparr>ep := vcla, pep := pcla\<rparr> else e)
            | _ \<Rightarrow> entry\<lparr>trainHits := 1, direction := FORWARD, ep := vcla, pep := pcla\<rparr>)
         else
           (case direction entry of
              BACKWARD \<Rightarrow>
                (let e = entry\<lparr>trainHits := trainHits entry + 1\<rparr>
                 in if vcla < ep e then e\<lparr>ep := vcla, pep := pcla\<rparr> else e)
            | _ \<Rightarrow> entry\<lparr>trainHits := 1, direction := BACKWARD, ep := vcla, pep := pcla\<rparr>))
      in if trainHits e1 \<ge> numTrains P then e1\<lparr>trained := True\<rparr> else e1)"

definition Trainer :: "params \<Rightarrow> addr_t \<Rightarrow> addr_t \<Rightarrow> StreamEntry \<Rightarrow> StreamEntry" where
  "Trainer P vcla pcla entry = (if \<not> trained entry then train P vcla pcla entry else entry)"

section \<open>ProcessRequest: issuing prefetches\<close>

text \<open>
  \<open>maxPrefetches\<close> is an \<open>int32\<close> that receives an unsigned 64-bit quotient; the
  comparison with \<open>_degree\<close> is made on \<open>unsigned int\<close>, and the chosen value goes
  back to the \<open>int32\<close> \<open>numPrefetches\<close>.
\<close>

definition maxPrefetches :: "params \<Rightarrow> StreamEntry \<Rightarrow> int32" where
  "maxPrefetches P entry =
     (if direction entry = FORWARD then
        (let maxAddress = sp entry + (prefetchAddrDistance P + ucast (blockSize P))
         in ucast ((maxAddress - ep entry) div ucast (blockSize P)))
      else
        (let minAddress = sp entry - (prefetchAddrDistance P + ucast (blockSize P))
         in ucast ((ep entry - minAddress) div ucast (blockSize P))))"

definition numPrefetches :: "params \<Rightarrow> StreamEntry \<Rightarrow> int32" where
  "numPrefetches P entry =
     (if maxPrefetches P entry < degree P then maxPrefetches P entry else degree P)"

text \<open>
  The loop \<open>for (int32 i = 0; i < numPrefetches; i ++)\<close> runs \<open>nat (sint numPrefetches)\<close>
  times: not at all when \<open>numPrefetches\<close> is zero or negative.
\<close>

definition advance :: "params \<Rightarrow> StreamEntry \<Rightarrow> StreamEntry" where
  "advance P entry =
     entry\<lparr>ep := ep entry + ucast (direction_value (direction entry) * blockSize P),
           pep := pep entry + ucast (direction_value (direction entry) * blockSize P)\<rparr>"

definition new_prefetch :: "params \<Rightarrow> MemoryRequest \<Rightarrow> StreamEntry \<Rightarrow> MemoryRequest" where
  "new_prefetch P request entry =
     \<lparr>iniType = COMPONENT, cpuID = cpuID request, reqType = PREFETCH,
      cmpID = cmpID request, virtualAddress = ep entry, physicalAddress = pep entry,
      reqSize = blockSize P, currentCycle = currentCycle request,
      icount = icount request, ip = MemoryRequest.ip request\<rparr>"

fun issue_loop ::
  "params \<Rightarrow> MemoryRequest \<Rightarrow> nat \<Rightarrow> StreamEntry \<Rightarrow> StreamEntry \<times> MemoryRequest list" where
  "issue_loop P request 0 entry = (entry, [])"
| "issue_loop P request (Suc n) entry =
     (let e = advance P entry;
          prefetch = new_prefetch P request e;
          (e', sent) = issue_loop P request n e
      in (e', prefetch # sent))"

definition slide :: "params \<Rightarrow> StreamEntry \<Rightarrow> StreamEntry" where
  "slide P entry =
     (if direction entry = FORWARD \<and> ep entry - sp entry > prefetchAddrDistance P
      then entry\<lparr>sp := ep entry - prefetchAddrDistance P\<rparr>
      else if direction entry = BACKWARD \<and> sp entry - ep entry > prefetchAddrDistance P
      then entry\<lparr>sp := ep entry + prefetchAddrDistance P\<rparr>
      else entry)"

text \<open>
  The body of \<open>if (entry.trained)\<close>, lines 301 to 341: the entry after the step, the
  prefetches sent to the next component in order, and \<open>numPrefetches\<close>. The division
  by \<open>_blockSize\<close> traps when the block size is zero: the result is \<open>None\<close> then.
\<close>

definition Issuer ::
  "params \<Rightarrow> MemoryRequest \<Rightarrow> StreamEntry \<Rightarrow> (StreamEntry \<times> MemoryRequest list \<times> int32) option" where
  "Issuer P request entry =
     (if blockSize P = 0 then None
      else
        (let n = numPrefetches P entry;
             (e, sent) = issue_loop P request (nat (sint n)) entry
         in Some (slide P e, sent, n)))"

section \<open>ProcessRequest: removing redundant entries\<close>

definition redundant :: "StreamEntry \<Rightarrow> StreamEntry \<Rightarrow> bool" where
  "redundant entry other =
     ((direction entry = FORWARD \<and>
       ((sp other \<le> ep entry \<and> sp other \<ge> sp entry) \<or>
        (ep other \<le> ep entry \<and> ep other \<ge> sp entry))) \<or>
      (direction entry = BACKWARD \<and>
       ((sp other \<le> sp entry \<and> sp other \<ge> ep entry) \<or>
        (ep other \<le> sp entry \<and> ep other \<ge> ep entry))))"

text \<open>
  One iteration of the loop at slot \<open>i\<close>: the row is read from the table as the earlier
  iterations left it.
\<close>

definition reap_step ::
  "uint32 \<Rightarrow> StreamEntry \<Rightarrow> table_entry list \<Rightarrow> nat \<Rightarrow> table_entry list" where
  "reap_step k entry rs i =
     (let row = rs ! i
      in if \<not> valid row then rs
         else if key row = k then rs
         else if redundant entry (val row) then invalidate_rows (key row) rs
         else rs)"

definition Reaper :: "uint32 \<Rightarrow> StreamEntry \<Rightarrow> table_entry list \<Rightarrow> table_entry list" where
  "Reaper k entry rs = foldl (reap_step k entry) rs [0..<length rs]"

section \<open>ProcessRequest: allocation\<close>

definition new_entry :: "MemoryRequest \<Rightarrow> addr_t \<Rightarrow> addr_t \<Rightarrow> StreamEntry" where
  "new_entry request vcla pcla =
     \<lparr>allocMissAddress = vcla, ip = MemoryRequest.ip request, sp = vcla, ep = vcla,
      psp = pcla, pep = pcla, trainHits = 0, trained = False, direction = NONE\<rparr>"

definition Allocator ::
  "'p policy \<Rightarrow> MemoryRequest \<Rightarrow> addr_t \<Rightarrow> addr_t \<Rightarrow> 'p state \<Rightarrow> 'p state" where
  "Allocator pol request vcla pcla s =
     s\<lparr>streamTable :=
         insert_key pol (runningIndex s) (new_entry request vcla pcla) (streamTable s),
       runningIndex := runningIndex s + 1\<rparr>"

section \<open>ProcessRequest\<close>

text \<open>
  The hit branch, lines 242 to 358. \<open>operator[]\<close> is given a key that the scan has
  just read from a valid row, so the lookup finds a row; the table is left as it is
  in the other case.
\<close>

definition on_hit ::
  "params \<Rightarrow> 'p policy \<Rightarrow> MemoryRequest \<Rightarrow> uint32 \<Rightarrow> addr_t \<Rightarrow> addr_t \<Rightarrow> 'p state
   \<Rightarrow> (cycles_t \<times> MemoryRequest list \<times> 'p state) option" where
  "on_hit P pol request k vcla pcla s =
     (let t = read_key pol k (streamTable s)
      in case lookup_rows k (rows t) of
           None \<Rightarrow> Some (0, [], s\<lparr>streamTable := t\<rparr>)
         | Some entry \<Rightarrow>
             (let e1 = Trainer P vcla pcla entry
              in if trained e1 then
                   (case Issuer P request e1 of
                      None \<Rightarrow> None
                    | Some (e2, sent, n) \<Rightarrow>
                        Some (0, sent,
                          s\<lparr>streamTable := t\<lparr>rows := Reaper k e2 (store_rows k e2 (rows t))\<rparr>,
                            num_prefetches := num_prefetches s + scast n\<rparr>))
                 else
                   Some (0, [],
                     s\<lparr>streamTable := t\<lparr>rows := Reaper k e1 (store_rows k e1 (rows t))\<rparr>\<rparr>)))"

text \<open>
  The return value is the number of busy cycles, the list is what was handed to
  SendToNextComponent, in order. \<open>None\<close> is the trap of a division by a zero block size.
\<close>

definition ProcessRequest ::
  "params \<Rightarrow> 'p policy \<Rightarrow> MemoryRequest \<Rightarrow> 'p state
   \<Rightarrow> (cycles_t \<times> MemoryRequest list \<times> 'p state) option" where
  "ProcessRequest P pol request s =
     (if reqType request = WRITE \<or> reqType request = WRITEBACK \<or> reqType request = PREFETCH
      then Some (0, [], s)
      else if \<not> prefetchOnWrite P \<and> reqType request = READ_FOR_WRITE
      then Some (0, [], s)
      else
        (let vcla = VBLOCK_ADDRESS request (blockSize P);
             pcla = PBLOCK_ADDRESS request (blockSize P)
         in case find_hit P vcla (rows (streamTable s)) of
              Some k \<Rightarrow> on_hit P pol request k vcla pcla s
            | None \<Rightarrow> Some (0, [], Allocator pol request vcla pcla s)))"

section \<open>Auxiliary notions used in the statements\<close>


text \<open>
  The direction the Trainer reads from an access: forward when the access lies above
  the allocating miss address, backward in every other case.
\<close>

definition access_direction :: "StreamEntry \<Rightarrow> addr_t \<Rightarrow> StreamDirection" where
  "access_direction entry vcla = (if allocMissAddress entry < vcla then FORWARD else BACKWARD)"

text \<open>The requests that ProcessRequest returns on before it looks at the table.\<close>

definition passes_through :: "params \<Rightarrow> MemoryRequest \<Rightarrow> bool" where
  "passes_through P request \<longleftrightarrow>
     reqType request = WRITE \<or> reqType request = WRITEBACK \<or> reqType request = PREFETCH \<or>
     (\<not> prefetchOnWrite P \<and> reqType request = READ_FOR_WRITE)"

text \<open>What a call of ProcessRequest sent, and the rows it left (nothing after a trap).\<close>

definition result_sent ::
  "(cycles_t \<times> MemoryRequest list \<times> 'p state) option \<Rightarrow> MemoryRequest list" where
  "result_sent r = (case r of None \<Rightarrow> [] | Some (c, sent, s) \<Rightarrow> sent)"

definition result_rows ::
  "(cycles_t \<times> MemoryRequest list \<times> 'p state) option \<Rightarrow> table_entry list" where
  "result_rows r = (case r of None \<Rightarrow> [] | Some (c, sent, s) \<Rightarrow> rows (streamTable s))"

text \<open>A run of the component over a sequence of requests, collecting what it sends.\<close>

fun run ::
  "params \<Rightarrow> 'p policy \<Rightarrow> MemoryRequest list \<Rightarrow> 'p state \<Rightarrow> (MemoryRequest list \<times> 'p state) option" where
  "run P pol [] s = Some ([], s)"
| "run P pol (request # rest) s =
     (case ProcessRequest P pol request s of
        None \<Rightarrow> None
      | Some (c, sent, s') \<Rightarrow>
          (case run P pol rest s' of
             None \<Rightarrow> None
           | Some (sent', s'') \<Rightarrow> Some (sent @ sent', s'')))"

definition run_sent :: "(MemoryRequest list \<times> 'p state) option \<Rightarrow> MemoryRequest list" where
  "run_sent r = (case r of None \<Rightarrow> [] | Some (sent, s) \<Rightarrow> sent)"

definition run_rows :: "(MemoryRequest list \<times> 'p state) option \<Rightarrow> table_entry list" where
  "run_rows r = (case r of None \<Rightarrow> [] | Some (sent, s) \<Rightarrow> rows (streamTable s))"

text \<open>The window a call of the Issuer leaves: start and end pointer of the entry.\<close>

definition issued_window ::
  "(StreamEntry \<times> MemoryRequest list \<times> int32) option \<Rightarrow> (addr_t \<times> addr_t) option" where
  "issued_window r = (case r of None \<Rightarrow> None | Some (e, sent, n) \<Rightarrow> Some (sp e, ep e))"

text \<open>
  The table's contract as an associative store: no two valid rows hold the same key.
\<close>

definition distinct_keys :: "table_entry list \<Rightarrow> bool" where
  "distinct_keys rs \<longleftrightarrow> distinct (map key (filter valid rs))"

text \<open>
  An address lies inside the range of the advanced entry, the range being taken in the
  direction of that entry: from \<open>sp\<close> up to \<open>ep\<close> when it goes forward, from \<open>ep\<close> up
  to \<open>sp\<close> when it goes backward.
\<close>

definition inside_range :: "StreamEntry \<Rightarrow> addr_t \<Rightarrow> bool" where
  "inside_range entry a \<longleftrightarrow>
     (direction entry = FORWARD \<and> sp entry \<le> a \<and> a \<le> ep entry) \<or>
     (direction entry = BACKWARD \<and> ep entry \<le> a \<and> a \<le> sp entry)"

text \<open>What one pass of the redundancy loop does to a row, in a table with distinct keys.\<close>

definition reaped :: "uint32 \<Rightarrow> StreamEntry \<Rightarrow> table_entry \<Rightarrow> table_entry" where
  "reaped k entry row =
     (if valid row \<and> key row \<noteq> k \<and> redundant entry (val row) then row\<lparr>valid := False\<rparr>
      else row)"

text \<open>
  The spec's notion for the redundancy pass, in its words: the extent of the other
  record (the addresses between its two pointers) intersects the extent of the advanced
  record, taken against \<open>[sp, ep]\<close> for a forward and \<open>[ep, sp]\<close> for a backward
  advanced record.
\<close>

definition intervals_intersect :: "addr_t \<Rightarrow> addr_t \<Rightarrow> addr_t \<Rightarrow> addr_t \<Rightarrow> bool" where
  "intervals_intersect lo hi lo' hi' \<longleftrightarrow> lo \<le> hi \<and> lo' \<le> hi' \<and> lo \<le> hi' \<and> lo' \<le> hi"

definition spec_extents_intersect :: "StreamEntry \<Rightarrow> StreamEntry \<Rightarrow> bool" where
  "spec_extents_intersect entry other \<longleftrightarrow>
     (direction entry = FORWARD \<and>
      intervals_intersect (sp entry) (ep entry)
        (min (sp other) (ep other)) (max (sp other) (ep other))) \<or>
     (direction entry = BACKWARD \<and>
      intervals_intersect (ep entry) (sp entry)
        (min (sp other) (ep other)) (max (sp other) (ep other)))"

text \<open>
  The spec's available room, in its words and over the integers:
  \<open>(sp + distance * blockSize + blockSize - ep) / blockSize\<close> for a forward entry,
  \<open>(ep - (sp - distance * blockSize - blockSize)) / blockSize\<close> for a backward one.
\<close>

definition spec_available_room :: "params \<Rightarrow> StreamEntry \<Rightarrow> int" where
  "spec_available_room P entry =
     (if direction entry = FORWARD
      then (uint (sp entry) + uint (distance P) * uint (blockSize P) + uint (blockSize P)
              - uint (ep entry)) div uint (blockSize P)
      else (uint (ep entry)
              - (uint (sp entry) - uint (distance P) * uint (blockSize P) - uint (blockSize P)))
             div uint (blockSize P))"

text \<open>A row at a glance: valid flag, key, start and end pointer.\<close>

definition row_view :: "table_entry \<Rightarrow> bool \<times> uint32 \<times> addr_t \<times> addr_t" where
  "row_view r = (valid r, key r, sp (val r), ep (val r))"

text \<open>
  What a hit does to the entry it finds, lines 250 to 341: the Trainer while the entry
  is untrained, then the Issuer once it is trained.
\<close>

definition hit_entry ::
  "params \<Rightarrow> MemoryRequest \<Rightarrow> addr_t \<Rightarrow> addr_t \<Rightarrow> StreamEntry \<Rightarrow> StreamEntry option" where
  "hit_entry P request vcla pcla entry =
     (let e1 = Trainer P vcla pcla entry
      in if trained e1 then map_option fst (Issuer P request e1) else Some e1)"

text \<open>
  How a call of ProcessRequest relates a row to the row it leaves in the same slot: the
  row is kept, or invalidated, or it is the row of the hit and holds the entry after
  the hit, or it is replaced by the newly allocated row.
\<close>

definition row_step ::
  "(StreamEntry \<Rightarrow> StreamEntry option) \<Rightarrow> table_entry \<Rightarrow> table_entry \<Rightarrow> table_entry \<Rightarrow> bool" where
  "row_step f new r r' \<longleftrightarrow>
     r' = r \<or> r' = r\<lparr>valid := False\<rparr> \<or>
     (valid r \<and> f (val r) = Some (val r') \<and> r' = r\<lparr>val := val r'\<rparr>) \<or>
     r' = new"

text \<open>
  The counter of training hits is in order: it is not negative as a signed value, and
  in an untrained entry it is zero or below the threshold.
\<close>

definition hits_ok :: "params \<Rightarrow> StreamEntry \<Rightarrow> bool" where
  "hits_ok P entry \<longleftrightarrow>
     0 \<le> sint (trainHits entry) \<and>
     (trained entry \<or> trainHits entry = 0 \<or> trainHits entry < numTrains P)"

definition row_hits :: "table_entry \<Rightarrow> bool \<times> int32" where
  "row_hits r = (trained (val r), trainHits (val r))"

text \<open>
  The table in order: distinct keys, every key of a valid row below the running index.
\<close>

definition table_ok :: "'p state \<Rightarrow> bool" where
  "table_ok s \<longleftrightarrow>
     distinct_keys (rows (streamTable s)) \<and>
     (\<forall>r \<in> set (rows (streamTable s)). valid r \<longrightarrow> key r < runningIndex s)"

section \<open>Example policy, requests and entries\<close>

text \<open>
  Modelled from the spec: the default table policy is "lru". The replacement state is
  the list of keys, most recently used first; the victim is the slot of the valid row
  whose key was used least recently.
\<close>

fun key_slot :: "uint32 \<Rightarrow> table_entry list \<Rightarrow> nat" where
  "key_slot k [] = 0"
| "key_slot k (r # rs) = (if valid r \<and> key r = k then 0 else Suc (key_slot k rs))"

definition lru_victim :: "uint32 list \<Rightarrow> table_entry list \<Rightarrow> nat" where
  "lru_victim p rs =
     (case filter (\<lambda>k. k \<in> key ` set (filter valid rs)) (rev p) of
        [] \<Rightarrow> 0
      | k # _ \<Rightarrow> key_slot k rs)"

definition lru_policy :: "uint32 list policy" where
  "lru_policy = \<lparr>init = [], touch = (\<lambda>p k. k # removeAll k p), victim = lru_victim\<rparr>"

definition read_request :: "addr_t \<Rightarrow> addr_t \<Rightarrow> MemoryRequest" where
  "read_request a pc =
     \<lparr>iniType = CPU, cpuID = 0, reqType = READ, cmpID = 0, virtualAddress = a,
      physicalAddress = a, reqSize = 8, currentCycle = 0, icount = 5, ip = pc\<rparr>"

definition stream_entry ::
  "addr_t \<Rightarrow> addr_t \<Rightarrow> addr_t \<Rightarrow> int32 \<Rightarrow> bool \<Rightarrow> StreamDirection \<Rightarrow> StreamEntry" where
  "stream_entry a s e n t d =
     \<lparr>allocMissAddress = a, ip = 7, sp = s, ep = e, psp = s, pep = e,
      trainHits = n, trained = t, direction = d\<rparr>"

definition table_of :: "table_entry list \<Rightarrow> uint32 \<Rightarrow> uint32 list state" where
  "table_of rs n =
     \<lparr>streamTable = \<lparr>rows = rs, repl = map key (filter valid rs)\<rparr>, runningIndex = n,
      num_prefetches = 0\<rparr>"

section \<open>The stream matcher\<close>



lemma distinct_keys_before:
  assumes "distinct_keys rs" and "n < length rs" and "valid (rs ! n)"
    and "y \<in> set (take n rs)" and "valid y"
  shows "key y \<noteq> key (rs ! n)"
proof -
  have "rs = take n rs @ rs ! n # drop (Suc n) rs"
    using assms(2) by (rule id_take_nth_drop)
  then have "distinct (map key (filter valid (take n rs @ rs ! n # drop (Suc n) rs)))"
    using assms(1) by (simp add: distinct_keys_def)
  then have "key (rs ! n) \<notin> key ` set (filter valid (take n rs))"
    using assms(3) by auto
  moreover have "key y \<in> key ` set (filter valid (take n rs))"
    using assms(4,5) by simp
  ultimately show ?thesis by metis
qed



section \<open>Requests that pass through\<close>

text \<open>
  C8. A write, a write-back or a prefetch, and a read-for-write while prefetch-on-write
  is off, returns 0 busy cycles, sends nothing and leaves the whole state as it was:
  the rows of the table, its replacement state, the running index and the counter.
\<close>

theorem ignored_request_no_effect:
  assumes "passes_through P request"
  shows "ProcessRequest P pol request s = Some (0, [], s)"
  using assms by (auto simp: ProcessRequest_def passes_through_def)

theorem ignored_request_no_effect_witness:
  "passes_through default_params ((read_request 1000 77)\<lparr>reqType := READ_FOR_WRITE\<rparr>) \<and>
   ProcessRequest default_params lru_policy ((read_request 1000 77)\<lparr>reqType := READ_FOR_WRITE\<rparr>)
     (table_of [\<lparr>valid = True, key = 0, val = stream_entry 960 960 960 0 False NONE\<rparr>] 1)
   = Some (0, [],
       table_of [\<lparr>valid = True, key = 0, val = stream_entry 960 960 960 0 False NONE\<rparr>] 1)"
proof -
  have h: "passes_through default_params ((read_request 1000 77)\<lparr>reqType := READ_FOR_WRITE\<rparr>)"
    by (simp add: passes_through_def default_params_def read_request_def)
  show ?thesis using h ignored_request_no_effect [OF h] by simp
qed

section \<open>The trainer\<close>

text \<open>
  C4, as the code has it. A training hit whose direction differs from the direction the
  record tracks, or that finds no direction set, makes the Trainer set \<open>trainHits\<close> to
  1, take the direction of the access, and overwrite the end of the tracked extent,
  \<open>ep\<close> and \<open>pep\<close>, with the block of the access, whatever they had grown to. The
  start pointers and the allocating miss address are left as they were, so the extent
  runs from the old start to the block of the access; the record is promoted at once
  exactly when one hit is enough.
\<close>

theorem trainer_direction_reset:
  assumes "\<not> trained entry" and "direction entry \<noteq> access_direction entry vcla"
  shows "trainHits (Trainer P vcla pcla entry) = 1 \<and>
         direction (Trainer P vcla pcla entry) = access_direction entry vcla \<and>
         ep (Trainer P vcla pcla entry) = vcla \<and>
         pep (Trainer P vcla pcla entry) = pcla \<and>
         sp (Trainer P vcla pcla entry) = sp entry \<and>
         psp (Trainer P vcla pcla entry) = psp entry \<and>
         allocMissAddress (Trainer P vcla pcla entry) = allocMissAddress entry \<and>
         (trained (Trainer P vcla pcla entry) \<longleftrightarrow> numTrains P \<le> 1)"
  using assms
  by (cases "direction entry")
     (simp_all add: Trainer_def train_def access_direction_def Let_def split: if_splits)

theorem trainer_direction_reset_witness:
  "\<not> trained (stream_entry 960 960 768 1 False BACKWARD) \<and>
   direction (stream_entry 960 960 768 1 False BACKWARD)
     \<noteq> access_direction (stream_entry 960 960 768 1 False BACKWARD) 1024 \<and>
   trainHits (Trainer default_params 1024 1024 (stream_entry 960 960 768 1 False BACKWARD)) = 1 \<and>
   direction (Trainer default_params 1024 1024 (stream_entry 960 960 768 1 False BACKWARD)) = FORWARD \<and>
   ep (Trainer default_params 1024 1024 (stream_entry 960 960 768 1 False BACKWARD)) = 1024 \<and>
   sp (Trainer default_params 1024 1024 (stream_entry 960 960 768 1 False BACKWARD)) = 960"
proof -
  have h1: "\<not> trained (stream_entry 960 960 768 1 False BACKWARD)"
    by (simp add: stream_entry_def)
  have h2: "direction (stream_entry 960 960 768 1 False BACKWARD)
     \<noteq> access_direction (stream_entry 960 960 768 1 False BACKWARD) 1024"
    by (simp add: stream_entry_def access_direction_def)
  show ?thesis
    using h1 h2 trainer_direction_reset [OF h1 h2, of default_params 1024]
    by (simp add: access_direction_def stream_entry_def)
qed

text \<open>
  C4 as stated fails: the extent after the reset is not the single block of the access.
  The reads 1000, 900 and 1700 allocate a record at block 960, turn it backward and then
  forward again; the last hit sets \<open>ep\<close> to its block 1664 and leaves \<open>sp\<close> at 960.
\<close>

theorem trainer_reset_extent_counterexample:
  "direction (stream_entry 960 960 896 1 False BACKWARD)
     \<noteq> access_direction (stream_entry 960 960 896 1 False BACKWARD) 1664 \<and>
   sp (Trainer default_params 1664 1664 (stream_entry 960 960 896 1 False BACKWARD)) = 960 \<and>
   ep (Trainer default_params 1664 1664 (stream_entry 960 960 896 1 False BACKWARD)) = 1664 \<and>
   map row_view
     (run_rows (run (default_params\<lparr>tableSize := 2\<rparr>) lru_policy
        [read_request 1000 77, read_request 900 77]
        (StartSimulation (default_params\<lparr>tableSize := 2\<rparr>) lru_policy)))
   = [(True, 0, 960, 896), (False, 0, 0, 0)] \<and>
   map row_view
     (run_rows (run (default_params\<lparr>tableSize := 2\<rparr>) lru_policy
        [read_request 1000 77, read_request 900 77, read_request 1700 77]
        (StartSimulation (default_params\<lparr>tableSize := 2\<rparr>) lru_policy)))
   = [(True, 0, 960, 1664), (False, 0, 0, 0)] \<and>
   VBLOCK_ADDRESS (read_request 1700 77) (blockSize default_params) = 1664"
proof -
  let ?P = "default_params\<lparr>tableSize := 2\<rparr>"
  have a: "direction (stream_entry 960 960 896 1 False BACKWARD)
     \<noteq> access_direction (stream_entry 960 960 896 1 False BACKWARD) 1664"
    by (simp add: stream_entry_def access_direction_def)
  have b: "sp (Trainer default_params 1664 1664 (stream_entry 960 960 896 1 False BACKWARD))
             = 960"
    by code_simp
  have c: "ep (Trainer default_params 1664 1664 (stream_entry 960 960 896 1 False BACKWARD))
             = 1664"
    by code_simp
  have d: "map row_view
     (run_rows (run ?P lru_policy [read_request 1000 77, read_request 900 77]
        (StartSimulation ?P lru_policy)))
   = [(True, 0, 960, 896), (False, 0, 0, 0)]"
    by code_simp
  have e: "map row_view
     (run_rows (run ?P lru_policy
        [read_request 1000 77, read_request 900 77, read_request 1700 77]
        (StartSimulation ?P lru_policy)))
   = [(True, 0, 960, 1664), (False, 0, 0, 0)]"
    by code_simp
  have f: "VBLOCK_ADDRESS (read_request 1700 77) (blockSize default_params) = 1664"
    by (simp add: VBLOCK_ADDRESS_def read_request_def default_params_def)
  show ?thesis using a b c d e f by (intro conjI)
qed

lemma of_nat_below_threshold:
  fixes N :: "32 word"
  assumes "k < unat N"
  shows "\<not> N \<le> of_nat k"
proof -
  have "unat N < 2 ^ 32" using unsigned_less [of N, where ?'a = nat] by simp
  with assms have "k < 2 ^ 32" by simp
  then have "unat (of_nat k :: 32 word) = k" by (simp add: unat_of_nat)
  with assms show ?thesis by (simp add: word_le_nat_alt)
qed

lemma train_anchor_first:
  "Trainer P a pc (new_entry request a pc) =
     (new_entry request a pc)\<lparr>trainHits := 1, direction := BACKWARD, trained := numTrains P \<le> 1\<rparr>"
  by (simp add: Trainer_def train_def new_entry_def Let_def)

lemma train_anchor_count:
  assumes "Suc m < unat (numTrains P)"
  shows "(Trainer P a pc ^^ Suc m) (new_entry request a pc) =
           (new_entry request a pc)\<lparr>trainHits := of_nat (Suc m), direction := BACKWARD\<rparr>"
  using assms
proof (induction m)
  case 0
  then have "\<not> numTrains P \<le> 1"
    using of_nat_below_threshold [of 1 "numTrains P"] by simp
  then show ?case by (simp add: train_anchor_first) (simp add: new_entry_def)
next
  case (Suc m)
  have no: "\<not> numTrains P \<le> of_nat (Suc (Suc m))"
    using Suc.prems by (rule of_nat_below_threshold)
  have prev: "(Trainer P a pc ^^ Suc m) (new_entry request a pc) =
           (new_entry request a pc)\<lparr>trainHits := of_nat (Suc m), direction := BACKWARD\<rparr>"
    using Suc by simp
  have "(Trainer P a pc ^^ Suc (Suc m)) (new_entry request a pc) =
        Trainer P a pc ((Trainer P a pc ^^ Suc m) (new_entry request a pc))"
    by simp
  also have "\<dots> =
      (new_entry request a pc)\<lparr>trainHits := of_nat (Suc (Suc m)), direction := BACKWARD\<rparr>"
    using no unfolding prev
    by (simp add: Trainer_def train_def new_entry_def Let_def add.commute)
  finally show ?case .
qed

lemma train_anchor_promotes:
  "trained ((Trainer P a pc ^^ max 1 (unat (numTrains P))) (new_entry request a pc)) \<and>
   direction ((Trainer P a pc ^^ max 1 (unat (numTrains P))) (new_entry request a pc)) = BACKWARD"
proof (cases "unat (numTrains P) \<le> 1")
  case True
  then have le: "numTrains P \<le> 1" by (simp add: word_le_nat_alt)
  from True have "max 1 (unat (numTrains P)) = 1" by simp
  then show ?thesis using le by (simp add: train_anchor_first)
next
  case False
  then have "2 \<le> unat (numTrains P)" by simp
  then obtain m where m: "unat (numTrains P) = Suc (Suc m)"
    by (metis add_2_eq_Suc le_Suc_ex)
  then have mx: "max 1 (unat (numTrains P)) = Suc (Suc m)" by simp
  have prev: "(Trainer P a pc ^^ Suc m) (new_entry request a pc) =
           (new_entry request a pc)\<lparr>trainHits := of_nat (Suc m), direction := BACKWARD\<rparr>"
    by (rule train_anchor_count) (simp add: m)
  have "(of_nat (Suc (Suc m)) :: 32 word) = numTrains P"
    using of_nat_unat [of "numTrains P", where ?'a = "32 word"] unfolding m by simp
  then have eq: "1 + (1 + (of_nat m :: 32 word)) = numTrains P"
    by (simp add: add.commute add.left_commute)
  have "(Trainer P a pc ^^ Suc (Suc m)) (new_entry request a pc) =
        Trainer P a pc ((Trainer P a pc ^^ Suc m) (new_entry request a pc))"
    by simp
  also have "\<dots> =
      (new_entry request a pc)\<lparr>trainHits := numTrains P, direction := BACKWARD, trained := True\<rparr>"
    unfolding prev using eq
    by (simp add: Trainer_def train_def new_entry_def Let_def add.commute)
  finally show ?thesis unfolding mx by simp
qed

text \<open>
  C10. A training hit on the very block that allocated the record counts as a backward
  access: a record with no direction or with direction FORWARD restarts with one
  backward hit, a record already going backward gains a hit. The promotion test follows
  in either case, so accesses to that one block alone promote a freshly allocated
  record to a trained backward stream, after \<open>numTrains\<close> of them (after one when
  \<open>numTrains\<close> is zero).
\<close>

theorem anchor_access_trains_backward:
  assumes "\<not> trained entry"
  shows "(direction entry \<noteq> BACKWARD \<longrightarrow>
            trainHits (Trainer P (allocMissAddress entry) pcla entry) = 1) \<and>
         (direction entry = BACKWARD \<longrightarrow>
            trainHits (Trainer P (allocMissAddress entry) pcla entry) = trainHits entry + 1) \<and>
         direction (Trainer P (allocMissAddress entry) pcla entry) = BACKWARD \<and>
         (trained (Trainer P (allocMissAddress entry) pcla entry) \<longleftrightarrow>
            numTrains P \<le> trainHits (Trainer P (allocMissAddress entry) pcla entry)) \<and>
         trained ((Trainer P a pc ^^ max 1 (unat (numTrains P))) (new_entry request a pc)) \<and>
         direction ((Trainer P a pc ^^ max 1 (unat (numTrains P))) (new_entry request a pc))
           = BACKWARD"
proof -
  have step: "(direction entry \<noteq> BACKWARD \<longrightarrow>
            trainHits (Trainer P (allocMissAddress entry) pcla entry) = 1) \<and>
         (direction entry = BACKWARD \<longrightarrow>
            trainHits (Trainer P (allocMissAddress entry) pcla entry) = trainHits entry + 1) \<and>
         direction (Trainer P (allocMissAddress entry) pcla entry) = BACKWARD \<and>
         (trained (Trainer P (allocMissAddress entry) pcla entry) \<longleftrightarrow>
            numTrains P \<le> trainHits (Trainer P (allocMissAddress entry) pcla entry))"
    using assms
    by (cases "direction entry") (simp_all add: Trainer_def train_def Let_def)
  show ?thesis using step train_anchor_promotes [of P a pc request] by simp
qed

theorem anchor_access_trains_backward_witness:
  "\<not> trained (stream_entry 960 960 1024 1 False FORWARD) \<and>
   trainHits (Trainer default_params 960 960 (stream_entry 960 960 1024 1 False FORWARD)) = 1 \<and>
   direction (Trainer default_params 960 960 (stream_entry 960 960 1024 1 False FORWARD)) = BACKWARD \<and>
   trained ((Trainer default_params 960 960 ^^ 2) (new_entry (read_request 1000 77) 960 960))"
proof -
  have h: "\<not> trained (stream_entry 960 960 1024 1 False FORWARD)"
    by (simp add: stream_entry_def)
  have a: "allocMissAddress (stream_entry 960 960 1024 1 False FORWARD) = 960"
    by (simp add: stream_entry_def)
  have d: "direction (stream_entry 960 960 1024 1 False FORWARD) \<noteq> BACKWARD"
    by (simp add: stream_entry_def)
  have m: "max 1 (unat (numTrains default_params)) = 2"
    by (simp add: default_params_def)
  show ?thesis
    using h d anchor_access_trains_backward
                [OF h, of default_params 960 960 960 "read_request 1000 77"]
    unfolding a m by simp
qed

section \<open>What a prefetch carries\<close>

lemma issue_loop_sent:
  "p \<in> set (snd (issue_loop P request n entry)) \<Longrightarrow>
     MemoryRequest.ip p = MemoryRequest.ip request \<and> icount p = icount request \<and>
     reqType p = PREFETCH \<and> iniType p = COMPONENT"
  by (induction n arbitrary: entry) (auto simp: Let_def split_def new_prefetch_def)

lemma Issuer_sent:
  assumes "Issuer P request entry = Some (e, sent, n)" and "p \<in> set sent"
  shows "MemoryRequest.ip p = MemoryRequest.ip request \<and> icount p = icount request \<and>
         reqType p = PREFETCH \<and> iniType p = COMPONENT"
proof -
  from assms(1)
  have "sent = snd (issue_loop P request (nat (sint (numPrefetches P entry))) entry)"
    by (auto simp: Issuer_def Let_def split_def split: if_splits)
  with assms(2) show ?thesis using issue_loop_sent by blast
qed

lemma on_hit_sent:
  assumes "on_hit P pol request k vcla pcla s = Some (c, sent, s')" and "p \<in> set sent"
  shows "MemoryRequest.ip p = MemoryRequest.ip request \<and> icount p = icount request \<and>
         reqType p = PREFETCH \<and> iniType p = COMPONENT"
  using assms
  by (auto simp: on_hit_def Let_def split: option.splits if_splits dest: Issuer_sent)

text \<open>
  C3, as the code has it. Every prefetch that a call of ProcessRequest sends carries the
  instruction pointer and the instruction count of the request that triggered it. The
  \<open>ip\<close> stored in the stream entry at allocation is never read.
\<close>

theorem prefetch_carries_request_ip:
  assumes "ProcessRequest P pol request s = Some (c, sent, s')" and "p \<in> set sent"
  shows "MemoryRequest.ip p = MemoryRequest.ip request \<and> icount p = icount request"
  using assms
  by (auto simp: ProcessRequest_def Let_def split: if_splits option.splits dest: on_hit_sent)

text \<open>
  C3 as stated fails: a trained entry allocated by the instruction at 7 is hit by a
  request of the instruction at 77; the four prefetches carry 77.
\<close>

theorem prefetch_origin_ip_counterexample:
  "StreamEntry.ip (stream_entry 64 128 256 2 True FORWARD) = 7 \<and>
   find_hit default_params 192
     [\<lparr>valid = True, key = 0, val = stream_entry 64 128 256 2 True FORWARD\<rparr>] = Some 0 \<and>
   map MemoryRequest.ip
     (result_sent (ProcessRequest default_params lru_policy (read_request 200 77)
        (table_of [\<lparr>valid = True, key = 0, val = stream_entry 64 128 256 2 True FORWARD\<rparr>] 1)))
     = [77, 77, 77, 77]"
  by code_simp

theorem prefetch_carries_request_ip_witness:
  "length (result_sent (ProcessRequest default_params lru_policy (read_request 200 77)
     (table_of [\<lparr>valid = True, key = 0, val = stream_entry 64 128 256 2 True FORWARD\<rparr>] 1))) = 4 \<and>
   list_all (\<lambda>p. MemoryRequest.ip p = 77 \<and> icount p = 5)
     (result_sent (ProcessRequest default_params lru_policy (read_request 200 77)
        (table_of [\<lparr>valid = True, key = 0, val = stream_entry 64 128 256 2 True FORWARD\<rparr>] 1)))"
proof -
  let ?r = "ProcessRequest default_params lru_policy (read_request 200 77)
     (table_of [\<lparr>valid = True, key = 0, val = stream_entry 64 128 256 2 True FORWARD\<rparr>] 1)"
  have len: "length (result_sent ?r) = 4" by code_simp
  have "?r \<noteq> None" by code_simp
  then obtain c sent s' where r: "?r = Some (c, sent, s')" by auto
  have "\<forall>p \<in> set sent. MemoryRequest.ip p = 77 \<and> icount p = 5"
    using prefetch_carries_request_ip [OF r] by (simp add: read_request_def)
  then show ?thesis using len r by (simp add: result_sent_def list_all_iff)
qed

section \<open>Facts about 32-bit and 64-bit words\<close>

lemma sint32_eq_uint: "uint (w :: 32 word) < 2 ^ 31 \<Longrightarrow> sint w = uint w"
proof -
  assume a: "uint w < 2 ^ 31"
  have "(0::int) \<le> uint w" by simp
  then have "- 2147483648 \<le> uint w" by linarith
  then have "signed_take_bit 31 (uint w) = uint w"
    using a by (simp add: signed_take_bit_int_eq_self_iff)
  then show ?thesis by (simp add: sint_uint)
qed

lemma sint32_neg: "\<not> uint (w :: 32 word) < 2 ^ 31 \<Longrightarrow> sint w < 0"
proof -
  assume "\<not> uint w < 2 ^ 31"
  then have a: "(2::int) ^ 31 \<le> uint w" by simp
  have "signed_take_bit 31 (uint w) \<le> uint w - 2 ^ Suc 31"
    using a by (rule signed_take_bit_int_less_eq)
  then have "signed_take_bit 31 (uint w) \<le> uint w - 4294967296" by simp
  moreover have "uint w < 4294967296" using uint_lt2p [of w] by simp
  moreover have "sint w = signed_take_bit 31 (uint w)" by (simp add: sint_uint)
  ultimately show ?thesis by linarith
qed

lemma sint32_nonneg: "0 \<le> sint (w :: 32 word) \<longleftrightarrow> uint w < 2 ^ 31"
  using sint32_eq_uint [of w] sint32_neg [of w] by (cases "uint w < 2 ^ 31") auto

lemma nat_sint_le_unat: "nat (sint (w :: 32 word)) \<le> unat w"
proof (cases "uint w < 2 ^ 31")
  case True
  then show ?thesis by (simp add: sint32_eq_uint)
next
  case False
  then have "sint w < 0" by (rule sint32_neg)
  then show ?thesis by simp
qed

lemma unat_ucast_32_64: "unat (ucast (x :: 32 word) :: 64 word) = unat x"
proof -
  have "unat x < 2 ^ 32" using unsigned_less [of x, where ?'a = nat] by simp
  then have "unat x < 2 ^ 64" by simp
  then show ?thesis by (simp add: unsigned_ucast_eq take_bit_nat_eq_self)
qed

lemma advance_no_wrap:
  fixes a :: "64 word" and b :: "32 word"
  assumes "unat a + m * unat b < 2 ^ 64"
  shows "unat (a + of_nat m * ucast b) = unat a + m * unat b"
proof -
  let ?k = "m * unat b"
  have k: "?k < 2 ^ 64" using assms by simp
  have eq: "of_nat m * (ucast b :: 64 word) = of_nat ?k" by simp
  have "unat (of_nat ?k :: 64 word) = ?k mod 2 ^ LENGTH(64)"
    by (rule unat_of_nat)
  also have "\<dots> = ?k" using k by simp
  finally have uk: "unat (of_nat ?k :: 64 word) = ?k" .
  have "unat a + unat (of_nat ?k :: 64 word) < 2 ^ LENGTH(64)"
    unfolding uk using assms by simp
  then have "unat (a + of_nat ?k) = unat a + unat (of_nat ?k :: 64 word)"
    by (simp only: unat_add_lem)
  then show ?thesis unfolding eq uk .
qed

section \<open>The redundancy pass\<close>

lemma redundant_iff:
  "redundant entry other \<longleftrightarrow>
     inside_range entry (sp other) \<or> inside_range entry (ep other)"
  by (auto simp: redundant_def inside_range_def)

lemma invalidate_rows_append:
  assumes "\<forall>x \<in> set xs. \<not> (valid x \<and> key x = k)" and "valid r" and "key r = k"
  shows "invalidate_rows k (xs @ r # ys) = xs @ r\<lparr>valid := False\<rparr> # ys"
  using assms by (induction xs) auto

lemma reap_prefix:
  assumes "distinct_keys rs" and "n \<le> length rs"
  shows "foldl (reap_step k e) rs [0..<n] = map (reaped k e) (take n rs) @ drop n rs"
  using assms(2)
proof (induction n)
  case 0
  then show ?case by simp
next
  case (Suc n)
  then have n: "n < length rs" by simp
  let ?T = "map (reaped k e) (take n rs) @ drop n rs"
  have T: "foldl (reap_step k e) rs [0..<n] = ?T" using Suc by simp
  have split: "drop n rs = rs ! n # drop (Suc n) rs"
    using n by (simp add: Cons_nth_drop_Suc)
  have nth: "?T ! n = rs ! n"
    using n by (simp add: nth_append)
  have tk: "take (Suc n) rs = take n rs @ [rs ! n]"
    using n by (simp add: take_Suc_conv_app_nth)
  have "foldl (reap_step k e) rs [0..<Suc n] = reap_step k e ?T n"
    using T by simp
  also have "\<dots> = map (reaped k e) (take n rs) @ reaped k e (rs ! n) # drop (Suc n) rs"
  proof (cases "valid (rs ! n) \<and> key (rs ! n) \<noteq> k \<and> redundant e (val (rs ! n))")
    case True
    have pre: "\<forall>x \<in> set (map (reaped k e) (take n rs)). \<not> (valid x \<and> key x = key (rs ! n))"
    proof
      fix x assume "x \<in> set (map (reaped k e) (take n rs))"
      then obtain y where y: "y \<in> set (take n rs)" "x = reaped k e y" by auto
      show "\<not> (valid x \<and> key x = key (rs ! n))"
      proof
        assume vx: "valid x \<and> key x = key (rs ! n)"
        then have "valid y" "key y = key (rs ! n)"
          using y(2) by (auto simp: reaped_def split: if_splits)
        then show False
          using distinct_keys_before [OF assms(1) n _ y(1)] True by simp
      qed
    qed
    have "reap_step k e ?T n = invalidate_rows (key (rs ! n)) ?T"
      using True nth by (simp add: reap_step_def Let_def)
    also have "\<dots> =
        map (reaped k e) (take n rs) @ (rs ! n)\<lparr>valid := False\<rparr> # drop (Suc n) rs"
      unfolding split using pre True by (intro invalidate_rows_append) auto
    finally show ?thesis using True by (simp add: reaped_def)
  next
    case False
    then have "reap_step k e ?T n = ?T"
      using nth by (auto simp: reap_step_def Let_def)
    then show ?thesis using False split by (auto simp: reaped_def)
  qed
  finally show ?case using tk by simp
qed

lemma Reaper_map:
  assumes "distinct_keys rs"
  shows "Reaper k e rs = map (reaped k e) rs"
  using reap_prefix [OF assms, of "length rs" k e] by (simp add: Reaper_def)

text \<open>
  C5, as the code has it. In a table with distinct keys the redundancy pass keeps every
  key and every value, and a row is valid after the pass if and only if it was valid
  before and it is the advanced record's own row or neither of its two pointers, \<open>sp\<close>
  and \<open>ep\<close>, lies inside the advanced record's range. So exactly the other valid rows
  with a pointer inside that range are invalidated.
\<close>

theorem reaper_invalidates_pointer_inside:
  assumes "distinct_keys rs" and "i < length rs"
  shows "length (Reaper k entry rs) = length rs \<and>
         key (Reaper k entry rs ! i) = key (rs ! i) \<and>
         val (Reaper k entry rs ! i) = val (rs ! i) \<and>
         (valid (Reaper k entry rs ! i) \<longleftrightarrow>
            valid (rs ! i) \<and>
            (key (rs ! i) = k \<or>
             \<not> (inside_range entry (sp (val (rs ! i))) \<or>
                inside_range entry (ep (val (rs ! i))))))"
  using assms by (auto simp: Reaper_map reaped_def redundant_iff)

theorem reaper_invalidates_pointer_inside_witness:
  "distinct_keys
     [\<lparr>valid = True, key = 0, val = stream_entry 64 128 448 2 True FORWARD\<rparr>,
      \<lparr>valid = True, key = 1, val = stream_entry 256 256 256 0 False NONE\<rparr>,
      \<lparr>valid = True, key = 2, val = stream_entry 4096 4096 4096 0 False NONE\<rparr>] \<and>
   map valid (Reaper 0 (stream_entry 64 128 448 2 True FORWARD)
     [\<lparr>valid = True, key = 0, val = stream_entry 64 128 448 2 True FORWARD\<rparr>,
      \<lparr>valid = True, key = 1, val = stream_entry 256 256 256 0 False NONE\<rparr>,
      \<lparr>valid = True, key = 2, val = stream_entry 4096 4096 4096 0 False NONE\<rparr>])
   = [True, False, True]"
proof -
  let ?rs = "[\<lparr>valid = True, key = 0, val = stream_entry 64 128 448 2 True FORWARD\<rparr>,
      \<lparr>valid = True, key = 1, val = stream_entry 256 256 256 0 False NONE\<rparr>,
      \<lparr>valid = True, key = 2, val = stream_entry 4096 4096 4096 0 False NONE\<rparr>]"
  let ?e = "stream_entry 64 128 448 2 True FORWARD"
  have d: "distinct_keys ?rs" by (simp add: distinct_keys_def)
  have len: "length (Reaper 0 ?e ?rs) = 3"
    using reaper_invalidates_pointer_inside [OF d, of 0 0 ?e] by simp
  have v0: "valid (Reaper 0 ?e ?rs ! 0)"
    using reaper_invalidates_pointer_inside [OF d, of 0 0 ?e] by simp
  have v1: "\<not> valid (Reaper 0 ?e ?rs ! 1)"
    using reaper_invalidates_pointer_inside [OF d, of 1 0 ?e]
    by (simp add: inside_range_def stream_entry_def)
  have v2: "valid (Reaper 0 ?e ?rs ! 2)"
    using reaper_invalidates_pointer_inside [OF d, of 2 0 ?e]
    by (simp add: inside_range_def stream_entry_def)
  obtain a b c where abc: "Reaper 0 ?e ?rs = [a, b, c]"
    using len by (auto simp: length_Suc_conv numeral_3_eq_3)
  show ?thesis using d v0 v1 v2 unfolding abc by simp
qed

text \<open>
  C5 as stated fails. The trained forward record of key 1 spans 64 to 1024 and so
  contains the extent of the advanced record of key 0, 128 to 448 after its four
  prefetches: the extents intersect, but neither pointer of the containing record lies
  inside the advanced range, and the record stays valid.
\<close>

theorem reaper_containing_extent_counterexample:
  "map row_view
     (result_rows (ProcessRequest default_params lru_policy (read_request 192 77)
        (table_of
           [\<lparr>valid = True, key = 0, val = stream_entry 64 128 192 2 True FORWARD\<rparr>,
            \<lparr>valid = True, key = 1, val = stream_entry 0 64 1024 2 True FORWARD\<rparr>] 2)))
   = [(True, 0, 128, 448), (True, 1, 64, 1024)] \<and>
   spec_extents_intersect
     ((stream_entry 64 128 192 2 True FORWARD)\<lparr>ep := 448, pep := 448\<rparr>)
     (stream_entry 0 64 1024 2 True FORWARD)"
proof -
  have a: "map row_view
     (result_rows (ProcessRequest default_params lru_policy (read_request 192 77)
        (table_of
           [\<lparr>valid = True, key = 0, val = stream_entry 64 128 192 2 True FORWARD\<rparr>,
            \<lparr>valid = True, key = 1, val = stream_entry 0 64 1024 2 True FORWARD\<rparr>] 2)))
   = [(True, 0, 128, 448), (True, 1, 64, 1024)]"
    by code_simp
  have b: "spec_extents_intersect
     ((stream_entry 64 128 192 2 True FORWARD)\<lparr>ep := 448, pep := 448\<rparr>)
     (stream_entry 0 64 1024 2 True FORWARD)"
    by (simp add: spec_extents_intersect_def intervals_intersect_def stream_entry_def)
  show ?thesis using a b by (rule conjI)
qed

section \<open>The issuer\<close>

lemma numPrefetches_le_degree: "numPrefetches P entry \<le> degree P"
  by (auto simp: numPrefetches_def)

lemma issue_count_le_degree: "nat (sint (numPrefetches P entry)) \<le> unat (degree P)"
proof -
  have "nat (sint (numPrefetches P entry)) \<le> unat (numPrefetches P entry)"
    by (rule nat_sint_le_unat)
  also have "\<dots> \<le> unat (degree P)"
    using numPrefetches_le_degree [of P entry] by (simp add: word_le_nat_alt)
  finally show ?thesis .
qed

lemma issue_loop_length: "length (snd (issue_loop P request m entry)) = m"
  by (induction m arbitrary: entry) (simp_all add: Let_def split_def)

lemma issue_loop_forward:
  assumes "direction entry = FORWARD"
  shows "fst (issue_loop P request m entry) =
           entry\<lparr>ep := ep entry + of_nat m * ucast (blockSize P),
                 pep := pep entry + of_nat m * ucast (blockSize P)\<rparr>"
  using assms
proof (induction m arbitrary: entry)
  case 0
  then show ?case by simp
next
  case (Suc m)
  have d: "direction (advance P entry) = FORWARD"
    using Suc.prems by (simp add: advance_def)
  show ?case
    using Suc.IH [OF d] Suc.prems
    by (simp add: Let_def split_def advance_def direction_value_def algebra_simps)
qed

text \<open>
  The step of a backward entry: the product \<open>direction * blockSize\<close> is an unsigned
  32-bit value, so a 64-bit end pointer moves up by \<open>2 ^ 32 - blockSize\<close>, not down
  by a block.
\<close>

lemma advance_backward:
  assumes "direction entry = BACKWARD"
  shows "ep (advance P entry) = ep entry + ucast (- blockSize P)"
  using assms by (simp add: advance_def direction_value_def)

lemma advance_backward_example:
  "ep (advance default_params (stream_entry 1984 1984 1856 2 True BACKWARD)) = 4294969088"
  by (simp add: advance_def direction_value_def default_params_def stream_entry_def)

lemma slide_forward_span:
  assumes "direction entry = FORWARD"
  shows "ep (slide P entry) - sp (slide P entry) \<le> prefetchAddrDistance P"
  using assms by (auto simp: slide_def)

lemma slide_forward_order:
  assumes "direction entry = FORWARD" and "sp entry \<le> ep entry"
  shows "sp (slide P entry) \<le> ep (slide P entry)"
proof (cases "ep entry - sp entry > prefetchAddrDistance P")
  case True
  have "prefetchAddrDistance P \<le> ep entry"
    using True assms(2) by unat_arith
  then have "ep entry - prefetchAddrDistance P \<le> ep entry"
    by unat_arith
  then show ?thesis using True assms(1) by (simp add: slide_def)
next
  case False
  then show ?thesis using assms by (simp add: slide_def)
qed

lemma prefetchAddrDistance_le:
  "unat (prefetchAddrDistance P) \<le> unat (distance P) * unat (blockSize P)"
proof -
  have "unat (prefetchAddrDistance P) = unat (distance P * blockSize P)"
    by (simp only: prefetchAddrDistance_def unat_ucast_32_64)
  also have "\<dots> \<le> unat (distance P) * unat (blockSize P)"
    by (metis (no_types, lifting) le_unat_uoi linorder_linear word_arith_nat_mult)
  finally show ?thesis .
qed

text \<open>
  The order \<open>sp \<le> ep\<close> that the statement below asks of a forward entry is what
  training gives: an untrained entry keeps \<open>sp\<close> at the allocating miss address, and a
  forward training hit puts \<open>ep\<close> above that address.
\<close>

lemma train_forward_order:
  assumes "\<not> trained entry" and "sp entry = allocMissAddress entry"
    and "direction entry = FORWARD \<longrightarrow> allocMissAddress entry < ep entry"
  shows "sp (train P vcla pcla entry) = allocMissAddress (train P vcla pcla entry) \<and>
         (direction (train P vcla pcla entry) = FORWARD
            \<longrightarrow> sp (train P vcla pcla entry) < ep (train P vcla pcla entry))"
  using assms
  by (cases "direction entry") (auto simp: train_def Let_def)

text \<open>
  C7, as the code has it. After the issuing step of a trained forward entry, slide
  included, the span \<open>ep - sp\<close> is at most the prefetch distance, which is at most
  \<open>distance * blockSize\<close>. The order \<open>sp \<le> ep\<close> holds after the step when it held
  before it and the prefetch addresses did not pass the top of the 64-bit address space.
\<close>

theorem forward_window_after_issue:
  assumes "Issuer P request entry = Some (e, sent, n)"
    and "trained entry" and "direction entry = FORWARD"
  shows "ep e - sp e \<le> prefetchAddrDistance P \<and>
         unat (prefetchAddrDistance P) \<le> unat (distance P) * unat (blockSize P) \<and>
         (sp entry \<le> ep entry \<and>
          unat (ep entry) + nat (sint n) * unat (blockSize P) < 2 ^ 64 \<longrightarrow> sp e \<le> ep e)"
proof -
  let ?m = "nat (sint n)"
  let ?L = "fst (issue_loop P request ?m entry)"
  have n: "n = numPrefetches P entry" and e: "e = slide P ?L"
    using assms(1) by (auto simp: Issuer_def Let_def split_def split: if_splits)
  have L: "?L = entry\<lparr>ep := ep entry + of_nat ?m * ucast (blockSize P),
                       pep := pep entry + of_nat ?m * ucast (blockSize P)\<rparr>"
    using assms(3) by (rule issue_loop_forward)
  have dL: "direction ?L = FORWARD" unfolding L using assms(3) by simp
  have span: "ep e - sp e \<le> prefetchAddrDistance P"
    unfolding e using dL by (rule slide_forward_span)
  have order: "sp e \<le> ep e"
    if le: "sp entry \<le> ep entry"
      and nw: "unat (ep entry) + ?m * unat (blockSize P) < 2 ^ 64"
  proof -
    have "unat (ep ?L) = unat (ep entry) + ?m * unat (blockSize P)"
      unfolding L using nw by (simp add: advance_no_wrap)
    then have "unat (sp entry) \<le> unat (ep ?L)"
      using le by (simp add: word_le_nat_alt)
    moreover have "sp ?L = sp entry" unfolding L by simp
    ultimately have "sp ?L \<le> ep ?L" by (simp add: word_le_nat_alt)
    then show ?thesis unfolding e using dL by (intro slide_forward_order)
  qed
  show ?thesis using span order prefetchAddrDistance_le by blast
qed

theorem forward_window_after_issue_witness:
  "issued_window (Issuer default_params (read_request 200 77)
      (stream_entry 64 128 1536 2 True FORWARD)) = Some (192, 1728) \<and>
   (1728 :: addr_t) - 192 \<le> prefetchAddrDistance default_params \<and>
   (192 :: addr_t) \<le> 1728"
proof -
  let ?E = "stream_entry 64 128 1536 2 True FORWARD"
  let ?q = "read_request 200 77"
  let ?L = "issue_loop default_params ?q 3 ?E"
  have n3: "numPrefetches default_params ?E = 3" by code_simp
  have r: "Issuer default_params ?q ?E = Some (slide default_params (fst ?L), snd ?L, 3)"
    by (simp add: Issuer_def n3 Let_def split_def) (simp add: default_params_def)
  have w: "issued_window (Issuer default_params ?q ?E) = Some (192, 1728)" by code_simp
  then have se: "sp (slide default_params (fst ?L)) = 192"
                "ep (slide default_params (fst ?L)) = 1728"
    unfolding r by (simp_all add: issued_window_def)
  have t: "trained ?E" and d: "direction ?E = FORWARD"
    by (simp_all add: stream_entry_def)
  have pre: "sp ?E \<le> ep ?E \<and>
       unat (ep ?E) + nat (sint (3 :: int32)) * unat (blockSize default_params) < 2 ^ 64"
    by (simp add: stream_entry_def default_params_def)
  show ?thesis
    using forward_window_after_issue [OF r t d] pre w unfolding se by simp
qed

text \<open>
  C7 as stated fails at the top of the address space: a trained forward entry from
  \<open>2 ^ 64 - 128\<close> to \<open>2 ^ 64 - 64\<close> issues four prefetches, its end pointer wraps
  around to 192, and the start pointer is left above it.
\<close>

theorem forward_window_wrap_counterexample:
  "sp (stream_entry 64 18446744073709551488 18446744073709551552 2 True FORWARD)
     \<le> ep (stream_entry 64 18446744073709551488 18446744073709551552 2 True FORWARD) \<and>
   issued_window (Issuer default_params (read_request 18446744073709551552 77)
     (stream_entry 64 18446744073709551488 18446744073709551552 2 True FORWARD))
   = Some (18446744073709551488, 192) \<and>
   \<not> (18446744073709551488 :: addr_t) \<le> 192"
proof -
  have a: "sp (stream_entry 64 18446744073709551488 18446744073709551552 2 True FORWARD)
     \<le> ep (stream_entry 64 18446744073709551488 18446744073709551552 2 True FORWARD)"
    by (simp add: stream_entry_def)
  have b: "issued_window (Issuer default_params (read_request 18446744073709551552 77)
     (stream_entry 64 18446744073709551488 18446744073709551552 2 True FORWARD))
   = Some (18446744073709551488, 192)"
    by code_simp
  have c: "\<not> (18446744073709551488 :: addr_t) \<le> 192" by simp
  show ?thesis using a b c by (intro conjI)
qed

lemma int_div_less:
  fixes a b n :: int
  assumes "0 < b" and "a div b < n"
  shows "a < n * b"
proof (rule ccontr)
  assume "\<not> a < n * b"
  then have "n * b \<le> a" by simp
  then have "(n * b) div b \<le> a div b" using assms(1) by (rule zdiv_mono1)
  then have "n \<le> a div b" using assms(1) by simp
  with assms(2) show False by simp
qed

lemma uint_ucast_32_64: "uint (ucast (x :: 32 word) :: 64 word) = uint x"
  using unat_ucast_32_64 [of x] by (metis uint_nat)

lemma uint_ucast_64_32:
  assumes "uint (w :: 64 word) < 2 ^ 32"
  shows "uint (ucast w :: 32 word) = uint w"
proof -
  have "uint (ucast w :: 32 word) = take_bit 32 (uint w)"
    by (simp add: unsigned_ucast_eq)
  also have "\<dots> = uint w"
    using assms by (simp add: take_bit_int_eq_self)
  finally show ?thesis .
qed

lemma prefetchAddrDistance_exact:
  assumes "uint (distance P) * uint (blockSize P) < 2 ^ 32"
  shows "uint (prefetchAddrDistance P) = uint (distance P) * uint (blockSize P)"
proof -
  have "uint (distance P * blockSize P) = (uint (distance P) * uint (blockSize P)) mod 2 ^ 32"
    by (simp add: uint_word_ariths)
  also have "\<dots> = uint (distance P) * uint (blockSize P)"
    using assms by simp
  finally show ?thesis by (simp add: prefetchAddrDistance_def uint_ucast_32_64)
qed

lemma room_word:
  assumes bs: "blockSize P \<noteq> 0"
    and lo: "0 \<le> spec_available_room P entry" and hi: "spec_available_room P entry < 2 ^ 31"
    and prod: "uint (distance P) * uint (blockSize P) < 2 ^ 32"
  shows "uint (maxPrefetches P entry) = spec_available_room P entry"
proof -
  let ?B = "uint (blockSize P)"
  let ?D = "if direction entry = FORWARD
            then uint (sp entry) + uint (distance P) * ?B + ?B - uint (ep entry)
            else uint (ep entry) - (uint (sp entry) - uint (distance P) * ?B - ?B)"
  let ?W = "if direction entry = FORWARD
            then sp entry + (prefetchAddrDistance P + ucast (blockSize P)) - ep entry
            else ep entry - (sp entry - (prefetchAddrDistance P + ucast (blockSize P)))"
  have B: "0 < ?B" using bs by (simp add: word_neq_0_conv word_less_def)
  have B32: "?B < 2 ^ 32" using uint_lt2p [of "blockSize P"] by simp
  have room: "spec_available_room P entry = ?D div ?B"
    by (simp add: spec_available_room_def)
  have D0: "0 \<le> ?D"
    using lo B unfolding room by (simp only: pos_imp_zdiv_nonneg_iff)
  have "?D < 2 ^ 31 * ?B"
    using B hi unfolding room by (rule int_div_less)
  also have "\<dots> < 2 ^ 31 * 2 ^ 32" using B32 by simp
  finally have D64: "?D < 2 ^ 64" by simp
  have "uint ?W = ?D mod 2 ^ 64"
    by (simp add: uint_word_ariths prefetchAddrDistance_exact [OF prod] uint_ucast_32_64
        mod_simps algebra_simps)
  then have W: "uint ?W = ?D" using D0 D64 by simp
  have "uint (?W div ucast (blockSize P)) = ?D div ?B"
    by (simp only: uint_div W uint_ucast_32_64)
  then have q: "uint (?W div ucast (blockSize P)) = spec_available_room P entry"
    by (simp only: room)
  then have "uint (?W div ucast (blockSize P)) < 2 ^ 32" using hi by simp
  then have "uint (ucast (?W div ucast (blockSize P)) :: 32 word) = spec_available_room P entry"
    using q by (simp add: uint_ucast_64_32)
  moreover have "maxPrefetches P entry = ucast (?W div ucast (blockSize P))"
    by (simp add: maxPrefetches_def Let_def)
  ultimately show ?thesis by simp
qed

lemma count_is_min:
  assumes bs: "blockSize P \<noteq> 0"
    and lo: "0 \<le> spec_available_room P entry" and hi: "spec_available_room P entry < 2 ^ 31"
    and prod: "uint (distance P) * uint (blockSize P) < 2 ^ 32"
  shows "int (nat (sint (numPrefetches P entry))) =
           min (spec_available_room P entry) (uint (degree P))"
proof -
  have mp: "uint (maxPrefetches P entry) = spec_available_room P entry"
    using assms by (rule room_word)
  have n: "uint (numPrefetches P entry) = min (spec_available_room P entry) (uint (degree P))"
    using mp by (auto simp: numPrefetches_def word_less_def)
  then have "uint (numPrefetches P entry) < 2 ^ 31" using hi by simp
  then have "sint (numPrefetches P entry) = uint (numPrefetches P entry)"
    by (rule sint32_eq_uint)
  then show ?thesis using n lo by simp
qed

text \<open>
  The part of C2 that the code keeps. A call of the Issuer never sends more than
  \<open>degree\<close> prefetches; and when the available room is not negative (and below
  \<open>2 ^ 31\<close>, with a prefetch distance that fits 32 bits), it sends exactly the
  minimum of the room and the degree, none when the room is zero.
\<close>

lemma issue_count_at_most_degree:
  assumes "Issuer P request entry = Some (e, sent, n)"
  shows "length sent \<le> unat (degree P)"
proof -
  have "sent = snd (issue_loop P request (nat (sint (numPrefetches P entry))) entry)"
    using assms(1) by (auto simp: Issuer_def Let_def split_def split: if_splits)
  then have "length sent = nat (sint (numPrefetches P entry))"
    by (simp add: issue_loop_length)
  then show ?thesis using issue_count_le_degree [of P entry] by simp
qed

lemma issue_count_when_room:
  assumes "Issuer P request entry = Some (e, sent, n)"
    and "0 \<le> spec_available_room P entry" and "spec_available_room P entry < 2 ^ 31"
    and "uint (distance P) * uint (blockSize P) < 2 ^ 32"
  shows "int (length sent) = min (spec_available_room P entry) (uint (degree P))"
proof -
  have bs: "blockSize P \<noteq> 0"
    using assms(1) by (auto simp: Issuer_def split: if_splits)
  have "sent = snd (issue_loop P request (nat (sint (numPrefetches P entry))) entry)"
    using assms(1) by (auto simp: Issuer_def Let_def split_def split: if_splits)
  then have "length sent = nat (sint (numPrefetches P entry))"
    by (simp add: issue_loop_length)
  then show ?thesis using count_is_min [OF bs assms(2,3,4)] by simp
qed

text \<open>
  C2 fails on the code. With a look-ahead distance of two blocks, the accesses 0, 640
  and 640 train a forward entry from 0 to 640. Its available room is -7 blocks, so the
  claim has no prefetch issued; the quotient is taken on unsigned 64-bit values and
  compared with the degree as an unsigned value, and the full degree of four prefetches
  is sent, to the blocks 704 to 896.
\<close>

theorem negative_room_issues_degree:
  "map row_view
     (run_rows (run (default_params\<lparr>tableSize := 2, distance := 2\<rparr>) lru_policy
        [read_request 0 77, read_request 640 77]
        (StartSimulation (default_params\<lparr>tableSize := 2, distance := 2\<rparr>) lru_policy)))
   = [(True, 0, 0, 640), (False, 0, 0, 0)] \<and>
   spec_available_room (default_params\<lparr>tableSize := 2, distance := 2\<rparr>)
     (stream_entry 0 0 640 2 True FORWARD) = - 7 \<and>
   sint (maxPrefetches (default_params\<lparr>tableSize := 2, distance := 2\<rparr>)
     (stream_entry 0 0 640 2 True FORWARD)) = - 7 \<and>
   numPrefetches (default_params\<lparr>tableSize := 2, distance := 2\<rparr>)
     (stream_entry 0 0 640 2 True FORWARD) = 4 \<and>
   map virtualAddress
     (run_sent (run (default_params\<lparr>tableSize := 2, distance := 2\<rparr>) lru_policy
        [read_request 0 77, read_request 640 77, read_request 640 77]
        (StartSimulation (default_params\<lparr>tableSize := 2, distance := 2\<rparr>) lru_policy)))
   = [704, 768, 832, 896]"
proof -
  let ?P = "default_params\<lparr>tableSize := 2, distance := 2\<rparr>"
  have a: "map row_view
     (run_rows (run ?P lru_policy [read_request 0 77, read_request 640 77]
        (StartSimulation ?P lru_policy)))
   = [(True, 0, 0, 640), (False, 0, 0, 0)]"
    by code_simp
  have b: "spec_available_room ?P (stream_entry 0 0 640 2 True FORWARD) = - 7"
    by (simp add: spec_available_room_def stream_entry_def default_params_def)
  have c: "sint (maxPrefetches ?P (stream_entry 0 0 640 2 True FORWARD)) = - 7"
    by (simp add: maxPrefetches_def prefetchAddrDistance_def stream_entry_def
        default_params_def)
  have d: "numPrefetches ?P (stream_entry 0 0 640 2 True FORWARD) = 4"
    by code_simp
  have e: "map virtualAddress
     (run_sent (run ?P lru_policy
        [read_request 0 77, read_request 640 77, read_request 640 77]
        (StartSimulation ?P lru_policy)))
   = [704, 768, 832, 896]"
    by code_simp
  show ?thesis using a b c d e by (intro conjI)
qed

section \<open>Allocation\<close>

lemma free_slot_Some:
  "free_slot rs = Some i \<Longrightarrow> i < length rs \<and> \<not> valid (rs ! i)"
  by (induction rs arbitrary: i) (auto split: if_splits)

text \<open>
  C9, as the code has it. With a block size that is not zero, a request that is not
  passed through and misses every valid row makes ProcessRequest return 0, send nothing
  and write one new row, at the slot the table picks: valid, with all three virtual pointers at the block of the access, both
  physical pointers at the physical block, no training hit, untrained, no direction.
  Every other slot keeps its row. The key is the running index, which is then
  incremented: the next key is greater unless the 32-bit index was at its maximum, and
  it is greater than every key of the table that was below the running index.
\<close>

theorem allocator_on_miss:
  assumes "\<not> passes_through P request"
    and "find_hit P (VBLOCK_ADDRESS request (blockSize P)) (rows (streamTable s)) = None"
    and "insert_slot pol (streamTable s) < length (rows (streamTable s))"
    and "blockSize P \<noteq> 0"
  shows "\<exists>s'. ProcessRequest P pol request s = Some (0, [], s') \<and>
           length (rows (streamTable s')) = length (rows (streamTable s)) \<and>
           rows (streamTable s') ! insert_slot pol (streamTable s) =
             \<lparr>valid = True, key = runningIndex s,
              val = \<lparr>allocMissAddress = VBLOCK_ADDRESS request (blockSize P),
                     ip = MemoryRequest.ip request,
                     sp = VBLOCK_ADDRESS request (blockSize P),
                     ep = VBLOCK_ADDRESS request (blockSize P),
                     psp = PBLOCK_ADDRESS request (blockSize P),
                     pep = PBLOCK_ADDRESS request (blockSize P),
                     trainHits = 0, trained = False, direction = NONE\<rparr>\<rparr> \<and>
           (\<forall>i < length (rows (streamTable s)).
              i \<noteq> insert_slot pol (streamTable s) \<longrightarrow>
              rows (streamTable s') ! i = rows (streamTable s) ! i) \<and>
           runningIndex s' = runningIndex s + 1 \<and>
           (runningIndex s \<noteq> - 1 \<longrightarrow> runningIndex s < runningIndex s') \<and>
           ((\<forall>r \<in> set (rows (streamTable s)). valid r \<longrightarrow> key r < runningIndex s) \<longrightarrow>
            (\<forall>i < length (rows (streamTable s)).
               i \<noteq> insert_slot pol (streamTable s) \<and> valid (rows (streamTable s') ! i) \<longrightarrow>
               key (rows (streamTable s') ! i) < runningIndex s))"
proof -
  let ?s' = "Allocator pol request (VBLOCK_ADDRESS request (blockSize P))
               (PBLOCK_ADDRESS request (blockSize P)) s"
  have run: "ProcessRequest P pol request s = Some (0, [], ?s')"
    using assms(1,2) by (auto simp: ProcessRequest_def passes_through_def Let_def)
  have rows': "rows (streamTable ?s') =
      (rows (streamTable s))[insert_slot pol (streamTable s) :=
        \<lparr>valid = True, key = runningIndex s,
         val = new_entry request (VBLOCK_ADDRESS request (blockSize P))
                 (PBLOCK_ADDRESS request (blockSize P))\<rparr>]"
    by (simp add: Allocator_def insert_key_def)
  have idx: "runningIndex ?s' = runningIndex s + 1"
    by (simp add: Allocator_def)
  have mono: "runningIndex s < runningIndex s + 1" if "runningIndex s \<noteq> - 1"
    using that inc_less_eq_self_iff_eq [of "runningIndex s"] by (simp add: not_le [symmetric])
  have old: "rows (streamTable ?s') ! i = rows (streamTable s) ! i"
    if "i \<noteq> insert_slot pol (streamTable s)" for i
    unfolding rows' using that by simp
  have below: "key (rows (streamTable ?s') ! i) < runningIndex s"
    if "\<forall>r \<in> set (rows (streamTable s)). valid r \<longrightarrow> key r < runningIndex s"
      and "i < length (rows (streamTable s))"
      and "i \<noteq> insert_slot pol (streamTable s)" and "valid (rows (streamTable ?s') ! i)" for i
    using that old [of i] by (metis nth_mem)
  show ?thesis
  proof (intro exI [of _ ?s'] conjI)
    show "ProcessRequest P pol request s = Some (0, [], ?s')" by (rule run)
    show "length (rows (streamTable ?s')) = length (rows (streamTable s))"
      by (simp add: rows')
    show "rows (streamTable ?s') ! insert_slot pol (streamTable s) =
             \<lparr>valid = True, key = runningIndex s,
              val = \<lparr>allocMissAddress = VBLOCK_ADDRESS request (blockSize P),
                     ip = MemoryRequest.ip request,
                     sp = VBLOCK_ADDRESS request (blockSize P),
                     ep = VBLOCK_ADDRESS request (blockSize P),
                     psp = PBLOCK_ADDRESS request (blockSize P),
                     pep = PBLOCK_ADDRESS request (blockSize P),
                     trainHits = 0, trained = False, direction = NONE\<rparr>\<rparr>"
      using assms(3) by (simp add: rows' new_entry_def)
    show "\<forall>i < length (rows (streamTable s)).
              i \<noteq> insert_slot pol (streamTable s) \<longrightarrow>
              rows (streamTable ?s') ! i = rows (streamTable s) ! i"
      using old by blast
    show "runningIndex ?s' = runningIndex s + 1" by (rule idx)
    show "runningIndex s \<noteq> - 1 \<longrightarrow> runningIndex s < runningIndex ?s'"
      using mono idx by simp
    show "(\<forall>r \<in> set (rows (streamTable s)). valid r \<longrightarrow> key r < runningIndex s) \<longrightarrow>
            (\<forall>i < length (rows (streamTable s)).
               i \<noteq> insert_slot pol (streamTable s) \<and> valid (rows (streamTable ?s') ! i) \<longrightarrow>
               key (rows (streamTable ?s') ! i) < runningIndex s)"
      using below by blast
  qed
qed

theorem allocator_on_miss_witness:
  "map row_view
     (result_rows (ProcessRequest default_params lru_policy (read_request 100000 77)
        (table_of
           [\<lparr>valid = True, key = 0, val = stream_entry 960 960 960 0 False NONE\<rparr>,
            \<lparr>valid = False, key = 0, val = empty_entry\<rparr>] 1)))
   = [(True, 0, 960, 960), (True, 1, 99968, 99968)]"
proof -
  let ?s = "table_of
           [\<lparr>valid = True, key = 0, val = stream_entry 960 960 960 0 False NONE\<rparr>,
            \<lparr>valid = False, key = 0, val = empty_entry\<rparr>] 1"
  let ?q = "read_request 100000 77"
  have h1: "\<not> passes_through default_params ?q"
    by (simp add: passes_through_def read_request_def)
  have h2: "find_hit default_params (VBLOCK_ADDRESS ?q (blockSize default_params))
              (rows (streamTable ?s)) = None"
    by code_simp
  have slot: "insert_slot lru_policy (streamTable ?s) = 1"
    by (simp add: insert_slot_def table_of_def)
  have h3: "insert_slot lru_policy (streamTable ?s) < length (rows (streamTable ?s))"
    unfolding slot by (simp add: table_of_def)
  have h4: "blockSize default_params \<noteq> 0"
    by (simp add: default_params_def)
  have v: "VBLOCK_ADDRESS ?q (blockSize default_params) = 99968"
    by (simp add: VBLOCK_ADDRESS_def read_request_def default_params_def)
  obtain s' where r: "ProcessRequest default_params lru_policy ?q ?s = Some (0, [], s')"
    and len: "length (rows (streamTable s')) = length (rows (streamTable ?s))"
    and new: "row_view (rows (streamTable s') ! 1) = (True, 1, 99968, 99968)"
    and old: "rows (streamTable s') ! 0 = rows (streamTable ?s) ! 0"
    using allocator_on_miss [OF h1 h2 h3 h4] unfolding slot v
    by (auto simp: row_view_def table_of_def)
  from len obtain a b where ab: "rows (streamTable s') = [a, b]"
    by (auto simp: table_of_def length_Suc_conv)
  have "result_rows (ProcessRequest default_params lru_policy ?q ?s) = [a, b]"
    by (simp add: r result_rows_def ab)
  then show ?thesis
    using new old unfolding ab
    by (simp add: table_of_def row_view_def stream_entry_def)
qed

text \<open>
  C9 as stated fails once the 32-bit running index has reached its maximum: the record
  allocated next gets the key \<open>2 ^ 32 - 1\<close>, and the one after it the key 0.
\<close>

theorem allocator_key_wrap_counterexample:
  "map row_view
     (run_rows (run default_params lru_policy
        [read_request 100000 77, read_request 200000 77]
        (table_of
           [\<lparr>valid = True, key = 4294967294, val = stream_entry 960 960 960 0 False NONE\<rparr>,
            \<lparr>valid = False, key = 0, val = empty_entry\<rparr>,
            \<lparr>valid = False, key = 0, val = empty_entry\<rparr>] 4294967295)))
   = [(True, 4294967294, 960, 960), (True, 4294967295, 99968, 99968),
      (True, 0, 200000, 200000)] \<and>
   \<not> (4294967295 :: uint32) < 0"
proof -
  have a: "map row_view
     (run_rows (run default_params lru_policy
        [read_request 100000 77, read_request 200000 77]
        (table_of
           [\<lparr>valid = True, key = 4294967294, val = stream_entry 960 960 960 0 False NONE\<rparr>,
            \<lparr>valid = False, key = 0, val = empty_entry\<rparr>,
            \<lparr>valid = False, key = 0, val = empty_entry\<rparr>] 4294967295)))
   = [(True, 4294967294, 960, 960), (True, 4294967295, 99968, 99968),
      (True, 0, 200000, 200000)]"
    by code_simp
  have b: "\<not> (4294967295 :: uint32) < 0" by simp
  show ?thesis using a b by (rule conjI)
qed

section \<open>Rows before and after a request\<close>

lemma store_rows_step:
  assumes "lookup_rows k rs = Some entry"
  shows "list_all2 (\<lambda>r r'. r' = r \<or> (valid r \<and> key r = k \<and> val r = entry \<and> r' = r\<lparr>val := e\<rparr>))
           rs (store_rows k e rs)"
  using assms
proof (induction rs)
  case Nil
  then show ?case by simp
next
  case (Cons r rs)
  show ?case
  proof (cases "valid r \<and> key r = k")
    case True
    then show ?thesis using Cons.prems by (simp add: list_all2_refl)
  next
    case False
    then show ?thesis using Cons by auto
  qed
qed

lemma invalidate_rows_step:
  "list_all2 (\<lambda>r r'. r' = r \<or> (key r = k \<and> r' = r\<lparr>valid := False\<rparr>))
     rs (invalidate_rows k rs)"
  by (induction rs) (auto simp: list_all2_refl)

lemma reap_step_step:
  "list_all2 (\<lambda>r r'. r' = r \<or> (key r \<noteq> k \<and> r' = r\<lparr>valid := False\<rparr>))
     rs (reap_step k e rs i)"
proof (cases "valid (rs ! i) \<and> key (rs ! i) \<noteq> k \<and> redundant e (val (rs ! i))")
  case True
  then have "reap_step k e rs i = invalidate_rows (key (rs ! i)) rs"
    by (simp add: reap_step_def Let_def)
  moreover have "list_all2 (\<lambda>r r'. r' = r \<or> (key r \<noteq> k \<and> r' = r\<lparr>valid := False\<rparr>))
     rs (invalidate_rows (key (rs ! i)) rs)"
    using invalidate_rows_step [of "key (rs ! i)" rs] True
    by (auto elim!: list_all2_mono)
  ultimately show ?thesis by simp
next
  case False
  then have "reap_step k e rs i = rs" by (auto simp: reap_step_def Let_def)
  then show ?thesis by (simp add: list_all2_refl)
qed

lemma reap_fold_step:
  assumes "list_all2 (\<lambda>r r'. r' = r \<or> (key r \<noteq> k \<and> r' = r\<lparr>valid := False\<rparr>)) rs acc"
  shows "list_all2 (\<lambda>r r'. r' = r \<or> (key r \<noteq> k \<and> r' = r\<lparr>valid := False\<rparr>))
           rs (foldl (reap_step k e) acc js)"
  using assms
proof (induction js arbitrary: acc)
  case Nil
  then show ?case by simp
next
  case (Cons j js)
  have "list_all2 (\<lambda>r r'. r' = r \<or> (key r \<noteq> k \<and> r' = r\<lparr>valid := False\<rparr>))
          rs (reap_step k e acc j)"
    using Cons.prems reap_step_step [of k acc e j]
    by (rule list_all2_trans [rotated]) auto
  then show ?case using Cons.IH by simp
qed

lemma Reaper_step:
  "list_all2 (\<lambda>r r'. r' = r \<or> (key r \<noteq> k \<and> r' = r\<lparr>valid := False\<rparr>)) rs (Reaper k e rs)"
  unfolding Reaper_def by (rule reap_fold_step) (simp add: list_all2_refl)

lemma hit_rows_step:
  assumes "lookup_rows k rs = Some entry" and "f entry = Some e"
  shows "list_all2 (row_step f new) rs (Reaper k e (store_rows k e rs))"
  using store_rows_step [OF assms(1), of e] Reaper_step [of k "store_rows k e rs" e]
  by (rule list_all2_trans [rotated]) (use assms(2) in \<open>auto simp: row_step_def\<close>)

lemma insert_rows_step:
  "list_all2 (row_step f new) rs (rs[i := new])"
proof (cases "i < length rs")
  case True
  then show ?thesis
    by (auto simp: list_all2_conv_all_nth nth_list_update row_step_def)
next
  case False
  then have "length rs \<le> i" by (simp add: not_less)
  then have "rs[i := new] = rs" by (rule list_update_beyond)
  then show ?thesis by (simp add: list_all2_refl row_step_def)
qed

lemma on_hit_rows:
  assumes "on_hit P pol request k vcla pcla s = Some (c, sent, s')"
  shows "list_all2 (row_step (hit_entry P request vcla pcla) new)
           (rows (streamTable s)) (rows (streamTable s'))"
proof (cases "lookup_rows k (rows (streamTable s))")
  case None
  then have "rows (streamTable s') = rows (streamTable s)"
    using assms by (auto simp: on_hit_def read_key_def Let_def)
  then show ?thesis by (simp add: list_all2_refl row_step_def)
next
  case (Some entry)
  let ?e1 = "Trainer P vcla pcla entry"
  show ?thesis
  proof (cases "trained ?e1")
    case True
    then obtain e2 n where i: "Issuer P request ?e1 = Some (e2, sent, n)"
      and r: "rows (streamTable s') = Reaper k e2 (store_rows k e2 (rows (streamTable s)))"
      using assms Some
      by (auto simp: on_hit_def read_key_def Let_def split: option.splits)
    have "hit_entry P request vcla pcla entry = Some e2"
      using True i by (simp add: hit_entry_def Let_def)
    then show ?thesis unfolding r using Some by (intro hit_rows_step)
  next
    case False
    then have r: "rows (streamTable s') =
        Reaper k ?e1 (store_rows k ?e1 (rows (streamTable s)))"
      using assms Some by (auto simp: on_hit_def read_key_def Let_def)
    have "hit_entry P request vcla pcla entry = Some ?e1"
      using False by (simp add: hit_entry_def Let_def)
    then show ?thesis unfolding r using Some by (intro hit_rows_step)
  qed
qed

lemma ProcessRequest_rows:
  assumes "ProcessRequest P pol request s = Some (c, sent, s')"
  shows "list_all2
           (row_step
              (hit_entry P request (VBLOCK_ADDRESS request (blockSize P))
                 (PBLOCK_ADDRESS request (blockSize P)))
              \<lparr>valid = True, key = runningIndex s,
               val = new_entry request (VBLOCK_ADDRESS request (blockSize P))
                       (PBLOCK_ADDRESS request (blockSize P))\<rparr>)
           (rows (streamTable s)) (rows (streamTable s'))"
proof (cases "passes_through P request")
  case True
  then have "s' = s" using assms by (auto simp: ProcessRequest_def passes_through_def)
  then show ?thesis by (simp add: list_all2_refl row_step_def)
next
  case False
  show ?thesis
  proof (cases "find_hit P (VBLOCK_ADDRESS request (blockSize P)) (rows (streamTable s))")
    case None
    then have "s' = Allocator pol request (VBLOCK_ADDRESS request (blockSize P))
                      (PBLOCK_ADDRESS request (blockSize P)) s"
      using assms False by (auto simp: ProcessRequest_def passes_through_def Let_def)
    then show ?thesis by (simp add: Allocator_def insert_key_def insert_rows_step)
  next
    case (Some k)
    then have "on_hit P pol request k (VBLOCK_ADDRESS request (blockSize P))
                 (PBLOCK_ADDRESS request (blockSize P)) s = Some (c, sent, s')"
      using assms False by (auto simp: ProcessRequest_def passes_through_def Let_def)
    then show ?thesis by (rule on_hit_rows)
  qed
qed

lemma row_step_cases:
  assumes "row_step f new r r'"
  obtains "r' = r" | "r' = r\<lparr>valid := False\<rparr>"
    | "valid r" and "valid r'" and "key r' = key r" and "f (val r) = Some (val r')"
    | "r' = new"
proof -
  have "valid r' = valid r \<and> key r' = key r" if "r' = r\<lparr>val := val r'\<rparr>"
  proof -
    have "valid r' = valid (r\<lparr>val := val r'\<rparr>)" "key r' = key (r\<lparr>val := val r'\<rparr>)"
      using that by simp_all
    then show ?thesis by simp
  qed
  then show ?thesis using assms that unfolding row_step_def by blast
qed

section \<open>The trained flag and the hit counter\<close>

lemma issue_loop_keeps:
  "trained (fst (issue_loop P request m entry)) = trained entry \<and>
   trainHits (fst (issue_loop P request m entry)) = trainHits entry \<and>
   direction (fst (issue_loop P request m entry)) = direction entry"
  by (induction m arbitrary: entry) (simp_all add: Let_def split_def advance_def)

lemma Issuer_keeps:
  assumes "Issuer P request entry = Some (e, sent, n)"
  shows "trained e = trained entry \<and> trainHits e = trainHits entry"
proof -
  from assms
  have "e = slide P (fst (issue_loop P request (nat (sint (numPrefetches P entry))) entry))"
    by (auto simp: Issuer_def Let_def split_def split: if_splits)
  then show ?thesis by (simp add: slide_def issue_loop_keeps)
qed

lemma train_trained_iff:
  "trained (train P vcla pcla entry) \<longleftrightarrow>
     trained entry \<or> numTrains P \<le> trainHits (train P vcla pcla entry)"
  by (cases "direction entry") (auto simp: train_def Let_def)

lemma train_hits_cases:
  "trainHits (train P vcla pcla entry) = 1 \<or>
   trainHits (train P vcla pcla entry) = trainHits entry + 1"
  by (cases "direction entry") (auto simp: train_def Let_def)

lemma inc_hits_nonneg:
  fixes h N :: "32 word"
  assumes "h = 0 \<or> h < N" and "unat N < 2 ^ 31"
  shows "0 \<le> sint (h + 1)"
proof -
  have "unat h < 2 ^ 31 - 1"
    using assms by (auto simp: word_less_nat_alt)
  then have small: "unat h + unat (1 :: 32 word) < 2 ^ 31" by simp
  then have "unat h + unat (1 :: 32 word) < 2 ^ LENGTH(32)" by simp
  then have "unat (h + 1) = unat h + unat (1 :: 32 word)"
    by (simp only: unat_add_lem)
  then have "unat (h + 1) < 2 ^ 31" using small by simp
  then have "uint (h + 1) < 2 ^ 31"
    by (metis of_nat_less_iff of_nat_numeral of_nat_power uint_nat)
  then show ?thesis by (simp only: sint32_nonneg)
qed

lemma train_hits_ok:
  assumes "\<not> trained entry" and "hits_ok P entry" and "unat (numTrains P) < 2 ^ 31"
  shows "hits_ok P (train P vcla pcla entry)"
proof -
  let ?e = "train P vcla pcla entry"
  have pre: "trainHits entry = 0 \<or> trainHits entry < numTrains P"
    using assms(1,2) by (simp add: hits_ok_def)
  have nonneg: "0 \<le> sint (trainHits ?e)"
  proof (cases "trainHits ?e = 1")
    case True
    then show ?thesis by simp
  next
    case False
    then have "trainHits ?e = trainHits entry + 1"
      using train_hits_cases [of P vcla pcla entry] by simp
    then show ?thesis using inc_hits_nonneg [OF pre assms(3)] by simp
  qed
  have "trained ?e \<or> trainHits ?e < numTrains P"
    using train_trained_iff [of P vcla pcla entry] by auto
  then show ?thesis using nonneg by (auto simp: hits_ok_def)
qed

lemma hit_entry_flag:
  assumes "hit_entry P request vcla pcla entry = Some e"
  shows "(trained entry \<longrightarrow> trained e \<and> trainHits e = trainHits entry) \<and>
         (\<not> trained entry \<and> trained e \<longrightarrow> numTrains P \<le> trainHits e) \<and>
         (unat (numTrains P) < 2 ^ 31 \<and> hits_ok P entry \<longrightarrow> hits_ok P e)"
proof (cases "trained entry")
  case True
  then have "map_option fst (Issuer P request entry) = Some e"
    using assms by (simp add: hit_entry_def Trainer_def)
  then obtain sent n where "Issuer P request entry = Some (e, sent, n)" by auto
  then have "trained e = trained entry \<and> trainHits e = trainHits entry"
    by (rule Issuer_keeps)
  then show ?thesis using True by (simp add: hits_ok_def)
next
  case False
  let ?e1 = "train P vcla pcla entry"
  have keep: "trained e = trained ?e1 \<and> trainHits e = trainHits ?e1"
  proof (cases "trained ?e1")
    case True
    then have "map_option fst (Issuer P request ?e1) = Some e"
      using assms False by (simp add: hit_entry_def Trainer_def)
    then obtain sent n where "Issuer P request ?e1 = Some (e, sent, n)" by auto
    then show ?thesis by (rule Issuer_keeps)
  next
    case no: False
    then have "e = ?e1" using assms False by (simp add: hit_entry_def Trainer_def)
    then show ?thesis by simp
  qed
  have a: "numTrains P \<le> trainHits e" if "trained e"
    using that keep train_trained_iff [of P vcla pcla entry] False by simp
  have b: "hits_ok P e" if "unat (numTrains P) < 2 ^ 31" and "hits_ok P entry"
    using train_hits_ok [OF False that(2,1), of vcla pcla] keep by (simp add: hits_ok_def)
  show ?thesis using False a b by blast
qed

text \<open>
  C6, as the code has it. Over a call of ProcessRequest a record that stays in its slot
  under its key keeps the trained flag once it is set; when the flag turns from false
  to true the hit counter has reached \<open>numTrains\<close> in the unsigned comparison that the
  code makes; and, when \<open>numTrains\<close> is at most \<open>2 ^ 31 - 1\<close>, a counter that is in
  order stays in order, so it is not negative, and at the turn of the flag the signed
  counter has reached the threshold. The record in a slot is a record of the state
  before the call when the slot was valid under the same key, which the running index
  does not hold yet; every other valid row after the call is the newly allocated one,
  untrained and with no hit.
\<close>

theorem trained_flag_monotone:
  assumes "ProcessRequest P pol request s = Some (c, sent, s')"
    and "i < length (rows (streamTable s))"
  shows "length (rows (streamTable s')) = length (rows (streamTable s)) \<and>
         (valid (rows (streamTable s) ! i) \<and> valid (rows (streamTable s') ! i) \<and>
          key (rows (streamTable s') ! i) = key (rows (streamTable s) ! i) \<and>
          key (rows (streamTable s) ! i) \<noteq> runningIndex s \<longrightarrow>
            (trained (val (rows (streamTable s) ! i))
               \<longrightarrow> trained (val (rows (streamTable s') ! i))) \<and>
            (\<not> trained (val (rows (streamTable s) ! i)) \<and>
             trained (val (rows (streamTable s') ! i))
               \<longrightarrow> numTrains P \<le> trainHits (val (rows (streamTable s') ! i))) \<and>
            (unat (numTrains P) < 2 ^ 31 \<and> hits_ok P (val (rows (streamTable s) ! i))
               \<longrightarrow> hits_ok P (val (rows (streamTable s') ! i)) \<and>
                   0 \<le> sint (trainHits (val (rows (streamTable s') ! i))) \<and>
                   (\<not> trained (val (rows (streamTable s) ! i)) \<and>
                    trained (val (rows (streamTable s') ! i))
                      \<longrightarrow> uint (numTrains P)
                            \<le> sint (trainHits (val (rows (streamTable s') ! i)))))) \<and>
         (valid (rows (streamTable s') ! i) \<and>
          \<not> (valid (rows (streamTable s) ! i) \<and>
             key (rows (streamTable s') ! i) = key (rows (streamTable s) ! i))
            \<longrightarrow> \<not> trained (val (rows (streamTable s') ! i)) \<and>
                trainHits (val (rows (streamTable s') ! i)) = 0)"
proof -
  let ?r = "rows (streamTable s) ! i" and ?r' = "rows (streamTable s') ! i"
  let ?f = "hit_entry P request (VBLOCK_ADDRESS request (blockSize P))
              (PBLOCK_ADDRESS request (blockSize P))"
  let ?new = "\<lparr>valid = True, key = runningIndex s,
               val = new_entry request (VBLOCK_ADDRESS request (blockSize P))
                       (PBLOCK_ADDRESS request (blockSize P))\<rparr>"
  have all: "list_all2 (row_step ?f ?new) (rows (streamTable s)) (rows (streamTable s'))"
    using assms(1) by (rule ProcessRequest_rows)
  then have len: "length (rows (streamTable s')) = length (rows (streamTable s))"
    by (simp add: list_all2_lengthD)
  have step: "row_step ?f ?new ?r ?r'"
    using all assms(2) by (rule list_all2_nthD)
  have same: "(trained (val ?r) \<longrightarrow> trained (val ?r')) \<and>
            (\<not> trained (val ?r) \<and> trained (val ?r') \<longrightarrow> numTrains P \<le> trainHits (val ?r')) \<and>
            (unat (numTrains P) < 2 ^ 31 \<and> hits_ok P (val ?r)
               \<longrightarrow> hits_ok P (val ?r') \<and> 0 \<le> sint (trainHits (val ?r')) \<and>
                   (\<not> trained (val ?r) \<and> trained (val ?r')
                      \<longrightarrow> uint (numTrains P) \<le> sint (trainHits (val ?r'))))"
    if v: "valid ?r" "valid ?r'" and k: "key ?r' = key ?r" "key ?r \<noteq> runningIndex s"
  proof -
    have word: "(trained (val ?r) \<longrightarrow> trained (val ?r')) \<and>
            (\<not> trained (val ?r) \<and> trained (val ?r') \<longrightarrow> numTrains P \<le> trainHits (val ?r')) \<and>
            (unat (numTrains P) < 2 ^ 31 \<and> hits_ok P (val ?r) \<longrightarrow> hits_ok P (val ?r'))"
      using step
    proof (cases rule: row_step_cases)
      case 1
      then show ?thesis by simp
    next
      case 2
      then show ?thesis using v by simp
    next
      case 3
      show ?thesis using hit_entry_flag [OF 3(4)] by blast
    next
      case 4
      then show ?thesis using k by simp
    qed
    have signed: "uint (numTrains P) \<le> sint (trainHits (val ?r'))"
      if "hits_ok P (val ?r')" and "numTrains P \<le> trainHits (val ?r')"
    proof -
      have "0 \<le> sint (trainHits (val ?r'))" using that(1) by (simp add: hits_ok_def)
      then have "uint (trainHits (val ?r')) < 2 ^ 31" by (simp only: sint32_nonneg)
      then have "sint (trainHits (val ?r')) = uint (trainHits (val ?r'))"
        by (rule sint32_eq_uint)
      then show ?thesis using that(2) by (simp add: word_le_def)
    qed
    show ?thesis using word signed by (auto simp: hits_ok_def)
  qed
  have fresh: "\<not> trained (val ?r') \<and> trainHits (val ?r') = 0"
    if v: "valid ?r'" and n: "\<not> (valid ?r \<and> key ?r' = key ?r)"
    using step
  proof (cases rule: row_step_cases)
    case 1
    then show ?thesis using v n by simp
  next
    case 2
    then show ?thesis using v by simp
  next
    case 3
    then show ?thesis using n by simp
  next
    case 4
    then show ?thesis by (simp add: new_entry_def)
  qed
  show ?thesis using len same fresh by blast
qed

theorem trained_flag_monotone_witness:
  "map row_hits
     (rows (streamTable (table_of
        [\<lparr>valid = True, key = 0, val = stream_entry 960 960 1024 1 False FORWARD\<rparr>] 1)))
   = [(False, 1)] \<and>
   map row_hits
     (result_rows (ProcessRequest default_params lru_policy (read_request 1100 77)
        (table_of
           [\<lparr>valid = True, key = 0, val = stream_entry 960 960 1024 1 False FORWARD\<rparr>] 1)))
   = [(True, 2)] \<and>
   numTrains default_params \<le> 2 \<and> 0 \<le> sint (2 :: int32) \<and>
   uint (numTrains default_params) \<le> sint (2 :: int32)"
proof -
  let ?s = "table_of
           [\<lparr>valid = True, key = 0, val = stream_entry 960 960 1024 1 False FORWARD\<rparr>] 1"
  let ?q = "read_request 1100 77"
  have before: "map row_hits (rows (streamTable ?s)) = [(False, 1)]"
    by (simp add: table_of_def row_hits_def stream_entry_def)
  have after: "map row_hits (result_rows (ProcessRequest default_params lru_policy ?q ?s))
                 = [(True, 2)]"
    by code_simp
  have view: "map row_view (result_rows (ProcessRequest default_params lru_policy ?q ?s))
                 = [(True, 0, 960, 1344)]"
    by code_simp
  obtain c sent s' where r: "ProcessRequest default_params lru_policy ?q ?s
       = Some (c, sent, s')"
    using after
    by (cases "ProcessRequest default_params lru_policy ?q ?s")
       (auto simp: result_rows_def)
  obtain x where x: "rows (streamTable s') = [x]"
    using after unfolding r by (auto simp: result_rows_def)
  have xs: "valid x" "key x = 0" "trained (val x)" "trainHits (val x) = 2"
    using after view by (simp_all add: r x result_rows_def row_hits_def row_view_def)
  have i: "0 < length (rows (streamTable ?s))" by (simp add: table_of_def)
  have ok: "hits_ok default_params (stream_entry 960 960 1024 1 False FORWARD)"
    by (simp add: hits_ok_def stream_entry_def default_params_def)
  have small: "unat (numTrains default_params) < 2 ^ 31"
    by (simp add: default_params_def)
  have "numTrains default_params \<le> trainHits (val x) \<and> 0 \<le> sint (trainHits (val x)) \<and>
        uint (numTrains default_params) \<le> sint (trainHits (val x))"
    using trained_flag_monotone [OF r i] xs ok small unfolding x
    by (simp add: table_of_def stream_entry_def)
  then show ?thesis using before after unfolding xs by simp
qed

text \<open>
  C6 as stated fails for a threshold above \<open>2 ^ 31 - 1\<close>. With the threshold
  \<open>2 ^ 32 - 1\<close> an untrained forward entry whose counter stands at \<open>2 ^ 31 - 1\<close> is
  hit once more, and the counter, a signed 32-bit integer, becomes negative. With the
  threshold \<open>2 ^ 31\<close> the same hit promotes the entry, the negative counter passing
  the unsigned comparison with the threshold.
\<close>

theorem hit_counter_negative_counterexample:
  "hits_ok (default_params\<lparr>numTrains := 4294967295\<rparr>)
     (stream_entry 0 0 64 2147483647 False FORWARD) \<and>
   map row_hits
     (result_rows (ProcessRequest (default_params\<lparr>numTrains := 4294967295\<rparr>) lru_policy
        (read_request 64 77)
        (table_of
           [\<lparr>valid = True, key = 0,
             val = stream_entry 0 0 64 2147483647 False FORWARD\<rparr>] 1)))
   = [(False, 2147483648)] \<and>
   hits_ok (default_params\<lparr>numTrains := 2147483648\<rparr>)
     (stream_entry 0 0 64 2147483647 False FORWARD) \<and>
   map row_hits
     (result_rows (ProcessRequest (default_params\<lparr>numTrains := 2147483648\<rparr>) lru_policy
        (read_request 64 77)
        (table_of
           [\<lparr>valid = True, key = 0,
             val = stream_entry 0 0 64 2147483647 False FORWARD\<rparr>] 1)))
   = [(True, 2147483648)] \<and>
   sint (2147483648 :: int32) = - 2147483648 \<and>
   uint (2147483648 :: uint32) = 2147483648"
proof -
  have a: "hits_ok (default_params\<lparr>numTrains := 4294967295\<rparr>)
     (stream_entry 0 0 64 2147483647 False FORWARD)"
    by (simp add: hits_ok_def stream_entry_def default_params_def)
  have b: "map row_hits
     (result_rows (ProcessRequest (default_params\<lparr>numTrains := 4294967295\<rparr>) lru_policy
        (read_request 64 77)
        (table_of
           [\<lparr>valid = True, key = 0,
             val = stream_entry 0 0 64 2147483647 False FORWARD\<rparr>] 1)))
   = [(False, 2147483648)]"
    by code_simp
  have c: "hits_ok (default_params\<lparr>numTrains := 2147483648\<rparr>)
     (stream_entry 0 0 64 2147483647 False FORWARD)"
    by (simp add: hits_ok_def stream_entry_def default_params_def)
  have d: "map row_hits
     (result_rows (ProcessRequest (default_params\<lparr>numTrains := 2147483648\<rparr>) lru_policy
        (read_request 64 77)
        (table_of
           [\<lparr>valid = True, key = 0,
             val = stream_entry 0 0 64 2147483647 False FORWARD\<rparr>] 1)))
   = [(True, 2147483648)]"
    by code_simp
  have e: "sint (2147483648 :: int32) = - 2147483648" by simp
  have f: "uint (2147483648 :: uint32) = 2147483648" by simp
  show ?thesis using a b c d e f by (intro conjI)
qed

section \<open>The keys of the table across requests\<close>

text \<open>
  The table starts in order and every request keeps it in order until the running
  index reaches its maximum: the keys are distinct, as the redundancy pass is stated
  for, and the running index is a key that no valid row holds. The key that the scan
  of the matcher returns is the key of a valid row, so the lookup that follows finds it.
\<close>

lemma find_hit_lookup:
  "find_hit P a rs = Some k \<Longrightarrow> \<exists>entry. lookup_rows k rs = Some entry"
  by (induction rs) (auto split: if_splits)

lemma store_rows_keys:
  "map key (filter valid (store_rows k e rs)) = map key (filter valid rs)"
  by (induction rs) auto

lemma filter_valid_reaped:
  "filter valid (map (reaped k e) rs) =
     filter (\<lambda>r. \<not> (key r \<noteq> k \<and> redundant e (val r))) (filter valid rs)"
  by (induction rs) (simp_all add: reaped_def)

lemma reaped_keys:
  "distinct (map key (filter valid rs)) \<Longrightarrow>
     distinct (map key (filter valid (map (reaped k e) rs)))"
  unfolding filter_valid_reaped by (rule distinct_map_filter)

lemma hit_keeps_distinct_keys:
  assumes "distinct_keys rs"
  shows "distinct_keys (Reaper k e (store_rows k e' rs))"
proof -
  have d: "distinct_keys (store_rows k e' rs)"
    using assms by (simp add: distinct_keys_def store_rows_keys)
  then have "Reaper k e (store_rows k e' rs) = map (reaped k e) (store_rows k e' rs)"
    by (rule Reaper_map)
  then show ?thesis using d reaped_keys [of "store_rows k e' rs" k e]
    by (simp add: distinct_keys_def)
qed

lemma insert_keeps_distinct_keys:
  assumes "distinct_keys rs" and "\<forall>r \<in> set rs. valid r \<longrightarrow> key r \<noteq> k"
  shows "distinct_keys (rs[i := \<lparr>valid = True, key = k, val = e\<rparr>])"
  using assms
proof (induction rs arbitrary: i)
  case Nil
  then show ?case by (simp add: distinct_keys_def)
next
  case (Cons r rs)
  show ?case
  proof (cases i)
    case 0
    then show ?thesis using Cons.prems by (auto simp: distinct_keys_def split: if_splits)
  next
    case (Suc j)
    have tail: "distinct_keys (rs[j := \<lparr>valid = True, key = k, val = e\<rparr>])"
      using Cons.IH [of j] Cons.prems by (auto simp: distinct_keys_def split: if_splits)
    have "key r \<notin> key ` set (filter valid (rs[j := \<lparr>valid = True, key = k, val = e\<rparr>]))"
      if "valid r"
    proof
      assume "key r \<in> key ` set (filter valid (rs[j := \<lparr>valid = True, key = k, val = e\<rparr>]))"
      then obtain x where x: "x \<in> set (rs[j := \<lparr>valid = True, key = k, val = e\<rparr>])"
        "valid x" "key x = key r" by auto
      have kr: "key r \<noteq> k" using that Cons.prems(2) by simp
      have nr: "key r \<notin> key ` set (filter valid rs)"
        using that Cons.prems(1) by (simp add: distinct_keys_def)
      from x(1) have "x \<in> set rs \<or> x = \<lparr>valid = True, key = k, val = e\<rparr>"
        by (meson in_set_conv_nth insertE set_update_subset_insert subsetD)
      then show False
      proof
        assume "x \<in> set rs"
        then have "key x \<in> key ` set (filter valid rs)" using x(2) by simp
        then show False using nr x(3) by simp
      next
        assume "x = \<lparr>valid = True, key = k, val = e\<rparr>"
        then have "key x = k" by simp
        then show False using kr x(3) by simp
      qed
    qed
    then show ?thesis using Suc tail by (auto simp: distinct_keys_def)
  qed
qed


lemma hit_valid_keys:
  assumes "distinct_keys rs"
  shows "key ` set (filter valid (Reaper k e (store_rows k e' rs)))
           \<subseteq> key ` set (filter valid rs)"
proof -
  have d: "distinct_keys (store_rows k e' rs)"
    using assms by (simp add: distinct_keys_def store_rows_keys)
  have "set (filter valid (Reaper k e (store_rows k e' rs)))
          \<subseteq> set (filter valid (store_rows k e' rs))"
    unfolding Reaper_map [OF d] filter_valid_reaped by auto
  then have "key ` set (filter valid (Reaper k e (store_rows k e' rs)))
          \<subseteq> set (map key (filter valid (store_rows k e' rs)))"
    by auto
  then show ?thesis unfolding store_rows_keys by simp
qed

lemma on_hit_keeps_table_ok:
  assumes "on_hit P pol request k vcla pcla s = Some (c, sent, s')"
    and "table_ok s"
  shows "table_ok s'"
proof (cases "lookup_rows k (rows (streamTable s))")
  case None
  then have "rows (streamTable s') = rows (streamTable s) \<and> runningIndex s' = runningIndex s"
    using assms(1) by (auto simp: on_hit_def read_key_def Let_def)
  then show ?thesis using assms(2) by (simp add: table_ok_def)
next
  case (Some entry)
  have d0: "distinct_keys (rows (streamTable s))"
    using assms(2) by (simp add: table_ok_def)
  obtain e where r: "rows (streamTable s') = Reaper k e (store_rows k e (rows (streamTable s)))"
    and idx: "runningIndex s' = runningIndex s"
    using assms(1) Some
    by (auto simp: on_hit_def read_key_def Let_def split: option.splits if_splits)
  have d: "distinct_keys (rows (streamTable s'))"
    unfolding r using d0 by (rule hit_keeps_distinct_keys)
  have "key x < runningIndex s" if "x \<in> set (rows (streamTable s'))" "valid x" for x
  proof -
    have "key x \<in> key ` set (filter valid (rows (streamTable s')))"
      using that by simp
    then have "key x \<in> key ` set (filter valid (rows (streamTable s)))"
      unfolding r using hit_valid_keys [OF d0, of k e e] by blast
    then show ?thesis using assms(2) by (auto simp: table_ok_def)
  qed
  then show ?thesis using d idx by (auto simp: table_ok_def)
qed

lemma ProcessRequest_keeps_table_ok:
  assumes "ProcessRequest P pol request s = Some (c, sent, s')"
    and "table_ok s" and "runningIndex s \<noteq> - 1"
  shows "table_ok s'"
proof (cases "passes_through P request")
  case True
  then have "s' = s" using assms(1) by (auto simp: ProcessRequest_def passes_through_def)
  then show ?thesis using assms(2) by simp
next
  case False
  show ?thesis
  proof (cases "find_hit P (VBLOCK_ADDRESS request (blockSize P)) (rows (streamTable s))")
    case None
    let ?new = "\<lparr>valid = True, key = runningIndex s,
                 val = new_entry request (VBLOCK_ADDRESS request (blockSize P))
                         (PBLOCK_ADDRESS request (blockSize P))\<rparr>"
    have s': "rows (streamTable s') =
                (rows (streamTable s))[insert_slot pol (streamTable s) := ?new]"
      and idx: "runningIndex s' = runningIndex s + 1"
      using assms(1) False None
      by (auto simp: ProcessRequest_def passes_through_def Let_def Allocator_def insert_key_def)
    have lt: "runningIndex s < runningIndex s + 1"
      using assms(3) inc_less_eq_self_iff_eq [of "runningIndex s"]
      by (simp add: not_le [symmetric])
    have fresh: "\<forall>r \<in> set (rows (streamTable s)). valid r \<longrightarrow> key r \<noteq> runningIndex s"
      using assms(2) by (auto simp: table_ok_def)
    have d: "distinct_keys (rows (streamTable s'))"
      unfolding s' using assms(2) fresh
      by (intro insert_keeps_distinct_keys) (auto simp: table_ok_def)
    have "key r < runningIndex s + 1" if "r \<in> set (rows (streamTable s'))" "valid r" for r
    proof -
      have "r \<in> set (rows (streamTable s)) \<or> r = ?new"
        using that(1) unfolding s'
        by (meson insertE set_update_subset_insert subsetD)
      then show ?thesis
      proof
        assume "r \<in> set (rows (streamTable s))"
        then have "key r < runningIndex s" using assms(2) that(2) by (auto simp: table_ok_def)
        then show ?thesis using lt by simp
      next
        assume "r = ?new"
        then show ?thesis using lt by simp
      qed
    qed
    then show ?thesis using d idx by (auto simp: table_ok_def)
  next
    case (Some k)
    then have hit: "on_hit P pol request k (VBLOCK_ADDRESS request (blockSize P))
                 (PBLOCK_ADDRESS request (blockSize P)) s = Some (c, sent, s')"
      using assms(1) False by (auto simp: ProcessRequest_def passes_through_def Let_def)
    then show ?thesis using assms(2) by (rule on_hit_keeps_table_ok)
  qed
qed

lemma StartSimulation_table_ok: "table_ok (StartSimulation P pol)"
  by (simp add: table_ok_def distinct_keys_def StartSimulation_def SetTableParameters_def)

end
